theory Spec2Isabelle
  imports Main "HOL-Library.AList" "HOL-Library.Multiset"
begin

section \<open>Python values shared by the modules\<close>

text \<open>
  A Python \<^verbatim>\<open>dict\<close> keeps its entries in insertion order and has one entry per key.
  It is modelled as an association list: \<open>map_of d k\<close> is the lookup \<^verbatim>\<open>d[k]\<close> (\<open>None\<close>
  where Python raises \<^verbatim>\<open>KeyError\<close>), \<open>AList.update k v d\<close> is the store \<^verbatim>\<open>d[k] = v\<close>
  (replacing the value in place, or appending a new entry), \<open>AList.delete k d\<close> is
  \<^verbatim>\<open>del d[k]\<close>, \<open>map snd d\<close> is \<^verbatim>\<open>d.values()\<close> and the list itself is \<^verbatim>\<open>d.items()\<close>.
\<close>

type_synonym ('k, 'v) dict = "('k \<times> 'v) list"

text \<open>
  The exception classes that the code names or can meet. \<open>supers e\<close> lists the class of
  \<open>e\<close> and its base classes among them, so that \<open>isinstance e c\<close> is what an
  \<^verbatim>\<open>except c\<close> clause tests. \<^verbatim>\<open>IOError\<close> is Python's alias of \<^verbatim>\<open>OSError\<close>.
\<close>

datatype exn =
    OSError | FileNotFoundError | ConnectionError | PermissionError
  | asyncio_TimeoutError
  | ClientError | ClientConnectionError | ClientResponseError
  | RuntimeError | NotImplementedError | RecursionError
  | KeyError | IndexError | ValueError | TypeError | AttributeError

abbreviation IOError :: exn where
  "IOError \<equiv> OSError"

fun supers :: "exn \<Rightarrow> exn list" where
  "supers FileNotFoundError = [FileNotFoundError, OSError]"
| "supers ConnectionError = [ConnectionError, OSError]"
| "supers PermissionError = [PermissionError, OSError]"
| "supers ClientConnectionError = [ClientConnectionError, ClientError]"
| "supers ClientResponseError = [ClientResponseError, ClientError]"
| "supers NotImplementedError = [NotImplementedError, RuntimeError]"
| "supers RecursionError = [RecursionError, RuntimeError]"
| "supers e = [e]"

definition isinstance :: "exn \<Rightarrow> exn \<Rightarrow> bool" where
  "isinstance e c = (c \<in> set (supers e))"

section \<open>oauth.py: the web server of the OAUTH redirections\<close>

text \<open>
  \<^verbatim>\<open>request.query\<close> is a multi-dictionary of strings: a list of pairs, of which
  \<^verbatim>\<open>request.query["state"]\<close> reads the first one under the key, raising
  \<^verbatim>\<open>KeyError\<close> when there is none.

  Every call of \<^verbatim>\<open>auth_redir\<close> creates an \<^verbatim>\<open>asyncio.Queue\<close> of its own, known to the
  suspended caller and to the entry of \<^verbatim>\<open>auth_redirs\<close> only. The queues live in a store,
  \<open>queues\<close>, addressed by their position; a caller is identified by the address of its
  queue, and what it is given is what is put into that queue.
\<close>

type_synonym query = "(string \<times> string) list"

datatype AppRunner = AppRunner

record WebServer =
  auth_redirs :: "(string, string \<times> nat) dict"
  queues :: "query list list"
  runner :: "AppRunner option"

definition url :: string where
  "url = ''http://localhost:8080/''"

definition WebServer_init :: WebServer where
  "WebServer_init = \<lparr>auth_redirs = [], queues = [], runner = None\<rparr>"

text \<open>
  \<^verbatim>\<open>auth_redir\<close> up to its suspension: the new queue is allocated, the entry stored
  under \<open>state\<close>, and the caller waits on the queue, whose address is returned here.
\<close>

definition auth_redir :: "string \<Rightarrow> string \<Rightarrow> WebServer \<Rightarrow> nat \<times> WebServer" where
  "auth_redir u state ws =
     (let queue = length (queues ws)
      in (queue, ws\<lparr>auth_redirs := AList.update state (u, queue) (auth_redirs ws),
                     queues := queues ws @ [[]]\<rparr>))"

text \<open>What \<^verbatim>\<open>queue.get()\<close> of a suspended caller has to return so far, oldest first.\<close>

definition delivered :: "WebServer \<Rightarrow> nat \<Rightarrow> query list" where
  "delivered ws queue = (if queue < length (queues ws) then queues ws ! queue else [])"

text \<open>\<^verbatim>\<open>await queue.get()\<close>: \<open>None\<close> while the caller stays suspended.\<close>

definition queue_get :: "WebServer \<Rightarrow> nat \<Rightarrow> query option" where
  "queue_get ws queue = (case delivered ws queue of [] \<Rightarrow> None | q # _ \<Rightarrow> Some q)"

definition put_nowait :: "nat \<Rightarrow> query \<Rightarrow> query list list \<Rightarrow> query list list" where
  "put_nowait queue q qs = (if queue < length qs then qs[queue := qs ! queue @ [q]] else qs)"

text \<open>
  The answers of the two handlers. aiohttp's \<^verbatim>\<open>HTTPFound\<close> is raised as an exception and
  sent as a redirection; it is a response here, and \<open>Inl\<close> is kept for the exceptions that
  leave a handler as errors.
\<close>

datatype response = HTTPFound string | Response string

definition redirect_pending :: "WebServer \<Rightarrow> response \<Rightarrow> response" where
  "redirect_pending ws otherwise =
     (case map snd (auth_redirs ws) of [] \<Rightarrow> otherwise | I # _ \<Rightarrow> HTTPFound (fst I))"

definition start :: "WebServer \<Rightarrow> response" where
  "start ws = redirect_pending ws (Response ''Authentication done'')"

definition oauth2_msal :: "WebServer \<Rightarrow> query \<Rightarrow> (exn + response) \<times> WebServer" where
  "oauth2_msal ws q =
     (case map_of q ''state'' of
        None \<Rightarrow> (Inl KeyError, ws)
      | Some state \<Rightarrow>
          (let ws' = (case map_of (auth_redirs ws) state of
                        None \<Rightarrow> ws
                      | Some (u, queue) \<Rightarrow>
                          ws\<lparr>auth_redirs := AList.delete state (auth_redirs ws),
                             queues := put_nowait queue q (queues ws)\<rparr>)
           in (Inr (redirect_pending ws' (HTTPFound url)), ws')))"

text \<open>
  The entries of \<open>auth_redirs\<close> refer to queues of the store. In every state that
  the server reaches there is one entry per state token, no queue is shared by two
  entries, and the queue of a pending entry exists and is still empty.
\<close>

definition addresses :: "WebServer \<Rightarrow> nat list" where
  "addresses ws = map (\<lambda>e. snd (snd e)) (auth_redirs ws)"

definition wf_WebServer :: "WebServer \<Rightarrow> bool" where
  "wf_WebServer ws =
     (distinct (map fst (auth_redirs ws)) \<and> distinct (addresses ws) \<and>
      list_all (\<lambda>a. a < length (queues ws) \<and> queues ws ! a = []) (addresses ws))"

text \<open>
  What happens to the server, in the order in which the event loop runs it: a provider
  calls \<^verbatim>\<open>auth_redir\<close>, or the browser requests one of the two pages.
\<close>

datatype request = Auth_redir string string | Get_start | Get_oauth2_msal query

fun serve :: "request \<Rightarrow> WebServer \<Rightarrow> WebServer" where
  "serve (Auth_redir u state) ws = snd (auth_redir u state ws)"
| "serve Get_start ws = ws"
| "serve (Get_oauth2_msal q) ws = snd (oauth2_msal ws q)"

text \<open>Several providers asking for authentication; the address of each caller's queue.\<close>

fun auth_redir_all :: "(string \<times> string) list \<Rightarrow> WebServer \<Rightarrow> nat list \<times> WebServer" where
  "auth_redir_all [] ws = ([], ws)"
| "auth_redir_all ((u, state) # rs) ws =
     (let (a, ws1) = auth_redir u state ws;
          (as, ws2) = auth_redir_all rs ws1
      in (a # as, ws2))"

text \<open>A server on which two providers wait, used to run the theorems below.\<close>

definition two_pending :: WebServer where
  "two_pending =
     snd (auth_redir ''https://login/b'' ''s2''
       (snd (auth_redir ''https://login/a'' ''s1'' WebServer_init)))"

section \<open>main.py: the synchronizing loop\<close>

text \<open>
  A \<^verbatim>\<open>Mailbox\<close> object is a dictionary key by identity and is known here by a number;
  \<open>ch\<close> is the key of a message in a snapshot. A message carries the mailbox it was
  listed in (\<^verbatim>\<open>msg.mailbox\<close>) and the rest of its fields, opaque here.
\<close>

type_synonym mbox = nat

type_synonym ch = nat

record Message =
  mailbox :: mbox
  content :: nat

type_synonym CHMsgDict = "(ch, Message) dict"

type_synonym MBoxDict = "(mbox, CHMsgDict) dict"

type_synonym CHMsgMappingDict = "(ch, Message option \<times> Message) dict"

text \<open>
  What the loop does to its collaborators, in the order in which it does it. An event
  stands for the call and, for an awaited call, its completion.
\<close>

datatype event =
    Ev_runner_setup | Ev_site_start | Ev_runner_cleanup
  | Ev_setup_mbox mbox
  | Ev_update_message_list mbox
  | Ev_same_messages mbox CHMsgDict bool
  | Ev_force_content mbox CHMsgDict
  | Ev_same_messages_tuple mbox CHMsgMappingDict bool
  | Ev_merge_content mbox CHMsgMappingDict
  | Ev_logger_exception
  | Ev_sleep nat
  | Ev_wait | Ev_clear
  | Ev_cleanup_msgs MBoxDict
  | Ev_domain_close nat

text \<open>
  The mailboxes, the message database, the provider sessions and aiohttp are not part of
  these modules: they are a parameter \<open>X\<close> of the model, a record of operations on a
  state \<open>'w\<close> of the world outside (the mailboxes' snapshots and flags, the files, the
  network, \<^verbatim>\<open>cfg.domains\<close>, which the mailboxes fill with their sessions). An awaited
  operation returns the exception that it raises, if any, and the world it leaves.
  \<^verbatim>\<open>same_messages\<close> is a comparison and \<^verbatim>\<open>mbox.messages\<close>, \<^verbatim>\<open>mbox.need_update\<close> are
  attributes: they read the world.
\<close>

record 'w ext =
  messages :: "mbox \<Rightarrow> 'w \<Rightarrow> CHMsgDict"
  need_update :: "mbox \<Rightarrow> 'w \<Rightarrow> bool"
  same_messages :: "mbox \<Rightarrow> CHMsgDict \<Rightarrow> 'w \<Rightarrow> bool"
  same_messages_tuple :: "mbox \<Rightarrow> CHMsgMappingDict \<Rightarrow> 'w \<Rightarrow> bool"
  setup_mbox :: "mbox \<Rightarrow> 'w \<Rightarrow> exn option \<times> 'w"
  update_message_list :: "mbox \<Rightarrow> 'w \<Rightarrow> exn option \<times> 'w"
  force_content :: "mbox \<Rightarrow> CHMsgDict \<Rightarrow> 'w \<Rightarrow> exn option \<times> 'w"
  merge_content :: "mbox \<Rightarrow> CHMsgMappingDict \<Rightarrow> 'w \<Rightarrow> exn option \<times> 'w"
  cleanup_msgs :: "MBoxDict \<Rightarrow> 'w \<Rightarrow> exn option \<times> 'w"
  changed_event_wait :: "'w \<Rightarrow> 'w"
  changed_event_clear :: "'w \<Rightarrow> 'w"
  sleep :: "nat \<Rightarrow> 'w \<Rightarrow> 'w"
  domains :: "'w \<Rightarrow> (string, nat) dict"
  domains_clear :: "'w \<Rightarrow> 'w"
  domain_close :: "nat \<Rightarrow> 'w \<Rightarrow> exn option \<times> 'w"
  runner_setup :: "'w \<Rightarrow> exn option \<times> 'w"
  site_start :: "'w \<Rightarrow> exn option \<times> 'w"
  runner_cleanup :: "'w \<Rightarrow> exn option \<times> 'w"

text \<open>
  config.py. \<^verbatim>\<open>cfg.direct_message\<close> is \<^verbatim>\<open>_direct_message\<close> unless the configuration script
  assigns another function.
\<close>

datatype policy = Default_policy | User_policy "Message \<Rightarrow> exn + mbox"

record Config =
  local_mboxes :: "mbox list"
  cloud_mboxes :: "mbox list"
  policy :: policy

definition direct_message_default :: "Config \<Rightarrow> Message \<Rightarrow> exn + mbox" where
  "direct_message_default cfg msg =
     (case local_mboxes cfg of [] \<Rightarrow> Inl IndexError | mbox # _ \<Rightarrow> Inr mbox)"

definition direct_message :: "Config \<Rightarrow> Message \<Rightarrow> exn + mbox" where
  "direct_message cfg msg =
     (case policy cfg of Default_policy \<Rightarrow> direct_message_default cfg msg
                       | User_policy f \<Rightarrow> f msg)"

definition all_mboxes :: "Config \<Rightarrow> mbox list" where
  "all_mboxes cfg = local_mboxes cfg @ cloud_mboxes cfg"

text \<open>
  An awaited call with its event, and \<^verbatim>\<open>asyncio.gather\<close>. \<^verbatim>\<open>gather\<close> starts every
  awaitable and cancels none; it returns when all are done, or raises the first exception.
  Of the interleavings the model takes the one in which the awaitables run one after the
  other in the order of the arguments.
\<close>

type_synonym 'w act = "'w \<Rightarrow> exn option \<times> 'w \<times> event list"

definition call :: "event \<Rightarrow> ('w \<Rightarrow> exn option \<times> 'w) \<Rightarrow> 'w act" where
  "call ev f w = (case f w of (r, w') \<Rightarrow> (r, w', [ev]))"

fun gather :: "'w act list \<Rightarrow> 'w act" where
  "gather [] w = (None, w, [])"
| "gather (f # fs) w =
     (case f w of (r, w1, t1) \<Rightarrow>
        (case gather fs w1 of (rs, w2, t2) \<Rightarrow>
           (case r of Some e \<Rightarrow> Some e | None \<Rightarrow> rs, w2, t1 @ t2)))"

subsection \<open>force_local_to_cloud\<close>

definition empty_targets :: "mbox list \<Rightarrow> MBoxDict" where
  "empty_targets mboxes = fold (\<lambda>mbox msgs. AList.update mbox [] msgs) mboxes []"

fun route_items :: "Config \<Rightarrow> (ch \<times> Message) list \<Rightarrow> MBoxDict \<Rightarrow> exn + MBoxDict" where
  "route_items cfg [] msgs = Inr msgs"
| "route_items cfg ((ch, msg) # items) msgs =
     (case direct_message cfg msg of
        Inl e \<Rightarrow> Inl e
      | Inr dest \<Rightarrow>
          (case map_of msgs dest of
             None \<Rightarrow> Inl KeyError
           | Some msgdict \<Rightarrow>
               route_items cfg items (AList.update dest (AList.update ch msg msgdict) msgs)))"

fun route_mboxes :: "'w ext \<Rightarrow> Config \<Rightarrow> 'w \<Rightarrow> mbox list \<Rightarrow> MBoxDict \<Rightarrow> exn + MBoxDict" where
  "route_mboxes X cfg w [] msgs = Inr msgs"
| "route_mboxes X cfg w (mbox # mboxes) msgs =
     (case route_items cfg (messages X mbox w) msgs of
        Inl e \<Rightarrow> Inl e
      | Inr msgs' \<Rightarrow> route_mboxes X cfg w mboxes msgs')"

definition route :: "'w ext \<Rightarrow> Config \<Rightarrow> 'w \<Rightarrow> exn + MBoxDict" where
  "route X cfg w = route_mboxes X cfg w (cloud_mboxes cfg) (empty_targets (local_mboxes cfg))"

fun force_all :: "'w ext \<Rightarrow> MBoxDict \<Rightarrow> 'w act" where
  "force_all X [] w = (None, w, [])"
| "force_all X ((mbox, msgdict) # items) w =
     (if same_messages X mbox msgdict w
      then (case force_all X items w of (r, w', t) \<Rightarrow>
              (r, w', Ev_same_messages mbox msgdict True # t))
      else (case force_content X mbox msgdict w of
              (Some e, w1) \<Rightarrow>
                (Some e, w1, [Ev_same_messages mbox msgdict False, Ev_force_content mbox msgdict])
            | (None, w1) \<Rightarrow>
                (case force_all X items w1 of (r, w', t) \<Rightarrow>
                   (r, w', Ev_same_messages mbox msgdict False
                             # Ev_force_content mbox msgdict # t))))"

definition force_local_to_cloud :: "'w ext \<Rightarrow> Config \<Rightarrow> 'w \<Rightarrow> (exn + MBoxDict) \<times> 'w \<times> event list" where
  "force_local_to_cloud X cfg w =
     (case route X cfg w of
        Inl e \<Rightarrow> (Inl e, w, [])
      | Inr msgs \<Rightarrow>
          (case force_all X msgs w of
             (Some e, w', t) \<Rightarrow> (Inl e, w', t)
           | (None, w', t) \<Rightarrow> (Inr msgs, w', t)))"

subsection \<open>update_cloud_from_local\<close>

definition empty_merges :: "mbox list \<Rightarrow> (mbox, CHMsgMappingDict) dict" where
  "empty_merges mboxes = fold (\<lambda>mbox msgs. AList.update mbox [] msgs) mboxes []"

fun group_items ::
  "CHMsgDict \<Rightarrow> (ch \<times> Message) list \<Rightarrow> (mbox, CHMsgMappingDict) dict
     \<Rightarrow> exn + (mbox, CHMsgMappingDict) dict" where
  "group_items local_messages [] msgs_by_cloud = Inr msgs_by_cloud"
| "group_items local_messages ((ch, cloud_msg) # items) msgs_by_cloud =
     (case map_of msgs_by_cloud (mailbox cloud_msg) of
        None \<Rightarrow> Inl KeyError
      | Some msgdict \<Rightarrow>
          group_items local_messages items
            (AList.update (mailbox cloud_msg)
               (AList.update ch (map_of local_messages ch, cloud_msg) msgdict) msgs_by_cloud))"

fun group_mboxes ::
  "'w ext \<Rightarrow> 'w \<Rightarrow> MBoxDict \<Rightarrow> (mbox, CHMsgMappingDict) dict
     \<Rightarrow> exn + (mbox, CHMsgMappingDict) dict" where
  "group_mboxes X w [] msgs_by_cloud = Inr msgs_by_cloud"
| "group_mboxes X w ((local_mbox, msgdict) # items) msgs_by_cloud =
     (case group_items (messages X local_mbox w) msgdict msgs_by_cloud of
        Inl e \<Rightarrow> Inl e
      | Inr msgs' \<Rightarrow> group_mboxes X w items msgs')"

text \<open>
  The generator given to \<^verbatim>\<open>gather\<close> is consumed before any awaitable runs: all the
  comparisons are made first, on the world as it is then.
\<close>

definition update_cloud_from_local :: "'w ext \<Rightarrow> Config \<Rightarrow> MBoxDict \<Rightarrow> 'w act" where
  "update_cloud_from_local X cfg msgs_by_local w =
     (case group_mboxes X w msgs_by_local (empty_merges (cloud_mboxes cfg)) of
        Inl e \<Rightarrow> (Some e, w, [])
      | Inr msgs_by_cloud \<Rightarrow>
          (case gather (map (\<lambda>(mbox, msgdict).
                               call (Ev_merge_content mbox msgdict) (merge_content X mbox msgdict))
                          (filter (\<lambda>(mbox, msgdict). \<not> same_messages_tuple X mbox msgdict w)
                             msgs_by_cloud)) w of
             (r, w', t) \<Rightarrow>
               (r, w', map (\<lambda>(mbox, msgdict).
                              Ev_same_messages_tuple mbox msgdict
                                (same_messages_tuple X mbox msgdict w)) msgs_by_cloud @ t)))"

subsection \<open>synchronize_mail\<close>

definition refresh :: "'w ext \<Rightarrow> Config \<Rightarrow> 'w act" where
  "refresh X cfg w =
     gather (map (\<lambda>mbox. call (Ev_update_message_list mbox) (update_message_list X mbox))
               (filter (\<lambda>mbox. need_update X mbox w) (all_mboxes cfg))) w"

text \<open>The body of the inner \<^verbatim>\<open>try\<close>: what it raises, or the new value of \<^verbatim>\<open>msgs\<close>.\<close>

definition cycle ::
  "'w ext \<Rightarrow> Config \<Rightarrow> MBoxDict option \<Rightarrow> 'w \<Rightarrow> (exn + MBoxDict) \<times> 'w \<times> event list" where
  "cycle X cfg msgs w =
     (case refresh X cfg w of
        (Some e, w1, t1) \<Rightarrow> (Inl e, w1, t1)
      | (None, w1, t1) \<Rightarrow>
          (case (case msgs of None \<Rightarrow> (None, w1, [])
                            | Some m \<Rightarrow> update_cloud_from_local X cfg m w1) of
             (Some e, w2, t2) \<Rightarrow> (Inl e, w2, t1 @ t2)
           | (None, w2, t2) \<Rightarrow>
               (case force_local_to_cloud X cfg w2 of (r, w3, t3) \<Rightarrow> (r, w3, t1 @ t2 @ t3))))"

definition retried :: "exn list" where
  "retried = [FileNotFoundError, asyncio_TimeoutError, ClientError, IOError, RuntimeError]"

definition caught :: "exn \<Rightarrow> bool" where
  "caught e = list_ex (isinstance e) retried"

text \<open>
  One pass through the body of \<^verbatim>\<open>while True\<close>: \<open>Inl\<close> the exception that leaves the
  loop, \<open>Inr\<close> the value of \<^verbatim>\<open>msgs\<close> with which the next pass starts.
\<close>

definition loop_body ::
  "'w ext \<Rightarrow> Config \<Rightarrow> MBoxDict option \<Rightarrow> 'w
     \<Rightarrow> (exn + MBoxDict option) \<times> 'w \<times> event list" where
  "loop_body X cfg msgs w =
     (case cycle X cfg msgs w of
        (Inl e, w1, t1) \<Rightarrow>
          (if caught e
           then (Inr msgs, sleep X 10 w1, t1 @ [Ev_logger_exception, Ev_sleep 10])
           else (Inl e, w1, t1))
      | (Inr msgs', w1, t1) \<Rightarrow>
          (case cleanup_msgs X msgs' (changed_event_clear X (changed_event_wait X w1)) of
             (Some e, w2) \<Rightarrow> (Inl e, w2, t1 @ [Ev_wait, Ev_clear, Ev_cleanup_msgs msgs'])
           | (None, w2) \<Rightarrow>
               (Inr (Some msgs'), w2, t1 @ [Ev_wait, Ev_clear, Ev_cleanup_msgs msgs'])))"

text \<open>
  The loop has no exit but an exception. \<open>main_loop X cfg n\<close> runs at most \<open>n\<close> passes:
  \<open>Running\<close> says that the loop is still going after them.
\<close>

datatype outcome = Raised exn | Running

fun main_loop ::
  "'w ext \<Rightarrow> Config \<Rightarrow> nat \<Rightarrow> MBoxDict option \<Rightarrow> 'w \<Rightarrow> outcome \<times> 'w \<times> event list" where
  "main_loop X cfg 0 msgs w = (Running, w, [])"
| "main_loop X cfg (Suc n) msgs w =
     (case loop_body X cfg msgs w of
        (Inl e, w1, t1) \<Rightarrow> (Raised e, w1, t1)
      | (Inr msgs', w1, t1) \<Rightarrow>
          (case main_loop X cfg n msgs' w1 of (r, w2, t2) \<Rightarrow> (r, w2, t1 @ t2)))"


definition close :: "'w ext \<Rightarrow> WebServer \<Rightarrow> 'w act" where
  "close X ws w =
     (case runner ws of None \<Rightarrow> (None, w, [])
                      | Some r \<Rightarrow> call Ev_runner_cleanup (runner_cleanup X) w)"





subsection \<open>A world to run the loop in\<close>

text \<open>
  The world is the snapshot of every mailbox. Nothing fails; forcing a mailbox stores the
  target snapshot, merging changes nothing and is always found necessary, and while the
  loop waits a message arrives in cloud mailbox 1.
\<close>

definition msg :: "mbox \<Rightarrow> nat \<Rightarrow> Message" where
  "msg m c = \<lparr>mailbox = m, content = c\<rparr>"

definition X0 :: "MBoxDict ext" where
  "X0 = \<lparr>messages = (\<lambda>mbox w. case map_of w mbox of None \<Rightarrow> [] | Some d \<Rightarrow> d),
          need_update = (\<lambda>mbox w. True),
          same_messages = (\<lambda>mbox d w. map_of w mbox = Some d),
          same_messages_tuple = (\<lambda>mbox d w. False),
          setup_mbox = (\<lambda>mbox w. (None, w)),
          update_message_list = (\<lambda>mbox w. (None, w)),
          force_content = (\<lambda>mbox d w. (None, AList.update mbox d w)),
          merge_content = (\<lambda>mbox d w. (None, w)),
          cleanup_msgs = (\<lambda>msgs w. (None, w)),
          changed_event_wait = (\<lambda>w. AList.update 1 [(7, msg 1 70), (8, msg 1 80)] w),
          changed_event_clear = (\<lambda>w. w),
          sleep = (\<lambda>n w. w),
          domains = (\<lambda>w. [(''common'', 0)]),
          domains_clear = (\<lambda>w. w),
          domain_close = (\<lambda>domain w. (None, w)),
          runner_setup = (\<lambda>w. (None, w)),
          site_start = (\<lambda>w. (None, w)),
          runner_cleanup = (\<lambda>w. (None, w))\<rparr>"

definition cfg0 :: Config where
  "cfg0 = \<lparr>local_mboxes = [0], cloud_mboxes = [1], policy = Default_policy\<rparr>"

definition world0 :: MBoxDict where
  "world0 = [(0, []), (1, [(7, msg 1 70)])]"

text \<open>Every snapshot of a dictionary of snapshots has one entry per key.\<close>

definition inner_distinct :: "('a, ('b, 'c) dict) dict \<Rightarrow> bool" where
  "inner_distinct msgs = (\<forall>(k, d) \<in> set msgs. distinct (map fst d))"

text \<open>Two cloud mailboxes routed to one local mailbox, sharing a key or not.\<close>

definition cfg_two :: Config where
  "cfg_two = \<lparr>local_mboxes = [0], cloud_mboxes = [1, 2], policy = Default_policy\<rparr>"

definition w_same_key :: MBoxDict where
  "w_same_key = [(0, []), (1, [(7, msg 1 70)]), (2, [(7, msg 2 71)])]"

definition w_two :: MBoxDict where
  "w_two = [(0, []), (1, [(7, msg 1 70)]), (2, [(8, msg 2 80)])]"

text \<open>
  The cloud messages in the order in which the two nested loops of \<^verbatim>\<open>force_local_to_cloud\<close>
  visit them, and the records among them that are held under the key \<open>ch\<close> and routed to the
  local mailbox \<open>dest\<close>, in that order.
\<close>

definition cloud_items :: "'w ext \<Rightarrow> Config \<Rightarrow> 'w \<Rightarrow> (ch \<times> Message) list" where
  "cloud_items X cfg w = concat (map (\<lambda>mbox. messages X mbox w) (cloud_mboxes cfg))"

definition routed_under :: "Config \<Rightarrow> ch \<Rightarrow> mbox \<Rightarrow> (ch \<times> Message) list \<Rightarrow> Message list" where
  "routed_under cfg ch dest items =
     map snd (filter (\<lambda>(ch', m'). ch' = ch \<and> direct_message cfg m' = Inr dest) items)"

text \<open>A configuration without a local mailbox.\<close>

definition cfg_no_local :: Config where
  "cfg_no_local = \<lparr>local_mboxes = [], cloud_mboxes = [1], policy = Default_policy\<rparr>"

text \<open>
  What the events of a pass say: the mailboxes that were forced or merged, with what, and
  the comparisons that reported a difference.
\<close>

fun forced :: "event \<Rightarrow> (mbox \<times> CHMsgDict) option" where
  "forced (Ev_force_content mbox d) = Some (mbox, d)"
| "forced ev = None"

fun differs :: "event \<Rightarrow> (mbox \<times> CHMsgDict) option" where
  "differs (Ev_same_messages mbox d same) = (if same then None else Some (mbox, d))"
| "differs ev = None"

fun compared :: "event \<Rightarrow> mbox option" where
  "compared (Ev_same_messages mbox d same) = Some mbox"
| "compared ev = None"

fun merged :: "event \<Rightarrow> (mbox \<times> CHMsgMappingDict) option" where
  "merged (Ev_merge_content mbox d) = Some (mbox, d)"
| "merged ev = None"

fun differs_tuple :: "event \<Rightarrow> (mbox \<times> CHMsgMappingDict) option" where
  "differs_tuple (Ev_same_messages_tuple mbox d same) = (if same then None else Some (mbox, d))"
| "differs_tuple ev = None"

fun compared_tuple :: "event \<Rightarrow> mbox option" where
  "compared_tuple (Ev_same_messages_tuple mbox d same) = Some mbox"
| "compared_tuple ev = None"

text \<open>
  The step of a pass to which an event belongs, in the order of the code (refresh, merge
  upward, route and force, then wait or sleep) and in the order of the specification
  (refresh, route and force, merge upward, wait).
\<close>

fun code_phase :: "event \<Rightarrow> nat" where
  "code_phase (Ev_update_message_list mbox) = 1"
| "code_phase (Ev_same_messages_tuple mbox d same) = 2"
| "code_phase (Ev_merge_content mbox d) = 2"
| "code_phase (Ev_same_messages mbox d same) = 3"
| "code_phase (Ev_force_content mbox d) = 3"
| "code_phase Ev_logger_exception = 4"
| "code_phase (Ev_sleep n) = 4"
| "code_phase Ev_wait = 4"
| "code_phase Ev_clear = 4"
| "code_phase (Ev_cleanup_msgs msgs) = 4"
| "code_phase ev = 0"

fun spec_phase :: "event \<Rightarrow> nat" where
  "spec_phase (Ev_update_message_list mbox) = 1"
| "spec_phase (Ev_same_messages mbox d same) = 2"
| "spec_phase (Ev_force_content mbox d) = 2"
| "spec_phase (Ev_same_messages_tuple mbox d same) = 3"
| "spec_phase (Ev_merge_content mbox d) = 3"
| "spec_phase Ev_logger_exception = 4"
| "spec_phase (Ev_sleep n) = 4"
| "spec_phase Ev_wait = 4"
| "spec_phase Ev_clear = 4"
| "spec_phase (Ev_cleanup_msgs msgs) = 4"
| "spec_phase ev = 0"

text \<open>\<open>precede P Q t\<close>: in \<open>t\<close> every event that satisfies \<open>P\<close> comes before every event
  that satisfies \<open>Q\<close>.\<close>

fun precede :: "(event \<Rightarrow> bool) \<Rightarrow> (event \<Rightarrow> bool) \<Rightarrow> event list \<Rightarrow> bool" where
  "precede P Q [] = True"
| "precede P Q (ev # t) = ((Q ev \<longrightarrow> \<not> list_ex P t) \<and> precede P Q t)"

definition is_force :: "event \<Rightarrow> bool" where
  "is_force ev = (forced ev \<noteq> None)"

definition is_merge :: "event \<Rightarrow> bool" where
  "is_merge ev = (merged ev \<noteq> None)"

text \<open>The first two passes of the loop in the world \<open>X0\<close>: what the first leaves, and the
  events of the second.\<close>

definition msgs_pass1 :: MBoxDict where
  "msgs_pass1 = [(0, [(7, msg 1 70)])]"

definition world1 :: MBoxDict where
  "world1 = [(0, [(7, msg 1 70)]), (1, [(7, msg 1 70), (8, msg 1 80)])]"

definition pass2 :: "event list" where
  "pass2 =
     [Ev_update_message_list 0, Ev_update_message_list 1,
      Ev_same_messages_tuple 1 [(7, (Some (msg 1 70), msg 1 70))] False,
      Ev_merge_content 1 [(7, (Some (msg 1 70), msg 1 70))],
      Ev_same_messages 0 [(7, msg 1 70), (8, msg 1 80)] False,
      Ev_force_content 0 [(7, msg 1 70), (8, msg 1 80)],
      Ev_wait, Ev_clear, Ev_cleanup_msgs [(0, [(7, msg 1 70), (8, msg 1 80)])]]"

text \<open>
  The transient kinds as the specification enumerates them: file not found, request
  timeouts, connection failures, generic I/O errors.
\<close>

definition spec_transient :: "exn \<Rightarrow> bool" where
  "spec_transient e =
     (isinstance e FileNotFoundError \<or> isinstance e asyncio_TimeoutError \<or>
      isinstance e ClientError \<or> isinstance e IOError)"

text \<open>The world \<open>X0\<close> with a cloud mailbox whose listing raises.\<close>

definition X_raise :: "exn \<Rightarrow> MBoxDict ext" where
  "X_raise e =
     X0\<lparr>update_message_list := (\<lambda>mbox w. (if mbox = 1 then Some e else None, w))\<rparr>"


section \<open>Invariant of the web server\<close>

lemma set_update_subset: "set (AList.update k v al) \<subseteq> insert (k, v) (set al)"
  by (induction al) auto

lemma distinct_snd_update:
  "distinct (map (\<lambda>e. snd (snd e)) al) \<Longrightarrow> a \<notin> (\<lambda>e. snd (snd e)) ` set al \<Longrightarrow>
   distinct (map (\<lambda>e. snd (snd e)) (AList.update k (u, a) al))"
proof (induction al)
  case Nil
  then show ?case by simp
next
  case (Cons p al)
  have "set (AList.update k (u, a) al) \<subseteq> insert (k, (u, a)) (set al)"
    by (rule set_update_subset)
  then have "snd (snd p) \<notin> (\<lambda>e. snd (snd e)) ` set (AList.update k (u, a) al)"
    using Cons.prems by auto
  with Cons show ?case by auto
qed

lemma wf_init: "wf_WebServer WebServer_init"
  by (simp add: wf_WebServer_def WebServer_init_def addresses_def)

lemma wf_auth_redir:
  assumes "wf_WebServer ws"
  shows "wf_WebServer (snd (auth_redir u s ws))"
proof -
  let ?n = "length (queues ws)"
  have lt: "\<forall>a \<in> set (addresses ws). a < ?n"
    using assms by (simp add: wf_WebServer_def list_all_iff)
  then have fresh: "?n \<notin> (\<lambda>e. snd (snd e)) ` set (auth_redirs ws)"
    by (auto simp: addresses_def)
  have d1: "distinct (map fst (AList.update s (u, ?n) (auth_redirs ws)))"
    using assms by (simp add: wf_WebServer_def distinct_update)
  have d2: "distinct (map (\<lambda>e. snd (snd e)) (AList.update s (u, ?n) (auth_redirs ws)))"
    using assms fresh by (intro distinct_snd_update) (simp_all add: wf_WebServer_def addresses_def)
  have em: "\<forall>a \<in> set (addresses ws). queues ws ! a = []"
    using assms by (simp add: wf_WebServer_def list_all_iff)
  have d3: "\<forall>e \<in> set (AList.update s (u, ?n) (auth_redirs ws)).
              snd (snd e) < Suc ?n \<and> (queues ws @ [[]]) ! snd (snd e) = []"
    using set_update_subset [of s "(u, ?n)" "auth_redirs ws"] lt em
    by (fastforce simp: addresses_def nth_append)
  show ?thesis
    using d1 d2 d3
    by (simp add: wf_WebServer_def auth_redir_def Let_def addresses_def list_all_iff)
qed

lemma length_put_nowait [simp]: "length (put_nowait a q qs) = length qs"
  by (simp add: put_nowait_def)

lemma map_of_address:
  "map_of al s = Some (u, a) \<Longrightarrow> (s, (u, a)) \<in> set al"
  by (rule map_of_SomeD)

lemma wf_oauth2_msal:
  assumes "wf_WebServer ws"
  shows "wf_WebServer (snd (oauth2_msal ws q))"
proof (cases "map_of q ''state''")
  case None
  then show ?thesis using assms by (simp add: oauth2_msal_def)
next
  case (Some s)
  show ?thesis
  proof (cases "map_of (auth_redirs ws) s")
    case None
    then show ?thesis using assms Some by (simp add: oauth2_msal_def)
  next
    case (Some p)
    obtain u a where p: "p = (u, a)" by (cases p)
    have mem: "(s, (u, a)) \<in> set (auth_redirs ws)"
      using Some p by (simp add: map_of_SomeD)
    have other: "\<And>e. e \<in> set (auth_redirs ws) \<Longrightarrow> fst e \<noteq> s \<Longrightarrow> snd (snd e) \<noteq> a"
    proof
      fix e assume e: "e \<in> set (auth_redirs ws)" "fst e \<noteq> s" "snd (snd e) = a"
      have "inj_on (\<lambda>e. snd (snd e)) (set (auth_redirs ws))"
        using assms by (simp add: wf_WebServer_def addresses_def distinct_map)
      then have "e = (s, (u, a))"
        using e(1,3) mem inj_onD [of "\<lambda>e. snd (snd e)" "set (auth_redirs ws)" e "(s, (u, a))"]
        by simp
      then show False using e by simp
    qed
    have ws': "snd (oauth2_msal ws q) =
        ws\<lparr>auth_redirs := AList.delete s (auth_redirs ws), queues := put_nowait a q (queues ws)\<rparr>"
      using \<open>map_of q ''state'' = Some s\<close> Some p by (simp add: oauth2_msal_def Let_def)
    have "\<forall>e \<in> set (AList.delete s (auth_redirs ws)).
            snd (snd e) < length (queues ws) \<and> put_nowait a q (queues ws) ! snd (snd e) = []"
    proof
      fix e assume "e \<in> set (AList.delete s (auth_redirs ws))"
      then have e: "e \<in> set (auth_redirs ws)" "fst e \<noteq> s"
        by (auto simp: AList.delete_eq)
      then have ne: "snd (snd e) \<noteq> a" by (rule other)
      have "snd (snd e) < length (queues ws) \<and> queues ws ! snd (snd e) = []"
        using assms e(1) by (simp add: wf_WebServer_def addresses_def list_all_iff)
      then show "snd (snd e) < length (queues ws) \<and> put_nowait a q (queues ws) ! snd (snd e) = []"
        using ne by (simp add: put_nowait_def)
    qed
    then show ?thesis
      using assms unfolding ws'
      by (simp add: wf_WebServer_def addresses_def list_all_iff AList.delete_eq distinct_map_filter)
  qed
qed

lemma wf_serve: "wf_WebServer ws \<Longrightarrow> wf_WebServer (serve r ws)"
  by (cases r) (simp_all add: wf_auth_redir wf_oauth2_msal)

lemma wf_fold_serve: "wf_WebServer ws \<Longrightarrow> wf_WebServer (fold serve rs ws)"
  by (induction rs arbitrary: ws) (simp_all add: wf_serve)

lemma oauth2_msal_matched:
  "map_of q ''state'' = Some s \<Longrightarrow> map_of (auth_redirs ws) s = Some (u, a) \<Longrightarrow>
   oauth2_msal ws q =
     (Inr (redirect_pending
             (ws\<lparr>auth_redirs := AList.delete s (auth_redirs ws),
                 queues := put_nowait a q (queues ws)\<rparr>) (HTTPFound url)),
      ws\<lparr>auth_redirs := AList.delete s (auth_redirs ws), queues := put_nowait a q (queues ws)\<rparr>)"
  by (simp add: oauth2_msal_def Let_def)

lemma oauth2_msal_unmatched:
  "map_of q ''state'' = Some s \<Longrightarrow> map_of (auth_redirs ws) s = None \<Longrightarrow>
   oauth2_msal ws q = (Inr (redirect_pending ws (HTTPFound url)), ws)"
  by (simp add: oauth2_msal_def Let_def)

lemma oauth2_msal_no_state:
  "map_of q ''state'' = None \<Longrightarrow> oauth2_msal ws q = (Inl KeyError, ws)"
  by (simp add: oauth2_msal_def)

lemma wf_address:
  "wf_WebServer ws \<Longrightarrow> map_of (auth_redirs ws) s = Some (u, a) \<Longrightarrow>
   a \<in> set (addresses ws) \<and> a < length (queues ws) \<and> queues ws ! a = []"
  by (force simp: wf_WebServer_def addresses_def list_all_iff dest: map_of_SomeD)

lemma delivered_put_nowait:
  "a < length (queues ws) \<Longrightarrow>
   delivered (ws\<lparr>auth_redirs := al, queues := put_nowait a q (queues ws)\<rparr>) b =
     (if b = a then delivered ws a @ [q] else delivered ws b)"
  by (simp add: delivered_def put_nowait_def)

lemma set_delete_distinct:
  assumes "distinct (map fst al)" "map_of al k = Some v"
  shows "set (AList.delete k al) = set al - {(k, v)}"
proof -
  have "\<And>w. (k, w) \<in> set al \<Longrightarrow> w = v"
    using assms map_of_is_SomeI [of al k] by fastforce
  then show ?thesis by (auto simp: AList.delete_eq)
qed

lemma redirect_pending_cases:
  "(if auth_redirs ws = [] then redirect_pending ws r = r
    else redirect_pending ws r \<in> (\<lambda>e. HTTPFound (fst (snd e))) ` set (auth_redirs ws))"
  by (cases "auth_redirs ws") (simp_all add: redirect_pending_def)

text \<open>A queue that no entry refers to is out of the handlers' reach.\<close>

lemma addresses_auth_redir:
  "set (addresses (snd (auth_redir u s ws))) \<subseteq> insert (length (queues ws)) (set (addresses ws))"
  using set_update_subset [of s "(u, length (queues ws))" "auth_redirs ws"]
  by (fastforce simp: auth_redir_def Let_def addresses_def)

lemma unreferenced_serve:
  assumes "wf_WebServer ws" "a < length (queues ws)" "a \<notin> set (addresses ws)"
  shows "delivered (serve r ws) a = delivered ws a \<and> a < length (queues (serve r ws)) \<and>
         a \<notin> set (addresses (serve r ws))"
proof (cases r)
  case (Auth_redir u s)
  have "a \<notin> set (addresses (snd (auth_redir u s ws)))"
    using addresses_auth_redir [of u s ws] assms by auto
  then show ?thesis
    using assms Auth_redir by (simp add: auth_redir_def Let_def delivered_def nth_append)
next
  case Get_start
  then show ?thesis using assms by simp
next
  case (Get_oauth2_msal q)
  show ?thesis
  proof (cases "map_of q ''state''")
    case None
    then show ?thesis using assms Get_oauth2_msal by (simp add: oauth2_msal_no_state)
  next
    case (Some s)
    show ?thesis
    proof (cases "map_of (auth_redirs ws) s")
      case None
      then show ?thesis using assms Get_oauth2_msal Some by (simp add: oauth2_msal_unmatched)
    next
      case (Some p)
      obtain u b where p: "p = (u, b)" by (cases p)
      have b: "b \<in> set (addresses ws)" "b < length (queues ws)"
        using wf_address [OF assms(1)] Some p by auto
      then have "b \<noteq> a" using assms by auto
      moreover have "set (AList.delete s (auth_redirs ws)) \<subseteq> set (auth_redirs ws)"
        by (auto simp: AList.delete_eq)
      ultimately show ?thesis
        using assms Get_oauth2_msal \<open>map_of q ''state'' = Some s\<close> Some p b
        by (auto simp: oauth2_msal_matched delivered_put_nowait addresses_def)
    qed
  qed
qed

lemma unreferenced_fold_serve:
  "wf_WebServer ws \<Longrightarrow> a < length (queues ws) \<Longrightarrow> a \<notin> set (addresses ws) \<Longrightarrow>
   delivered (fold serve rs ws) a = delivered ws a"
proof (induction rs arbitrary: ws)
  case Nil
  then show ?case by simp
next
  case (Cons r rs)
  have "delivered (fold serve rs (serve r ws)) a = delivered (serve r ws) a"
    using Cons.prems unreferenced_serve [of ws a r] by (intro Cons.IH) (simp_all add: wf_serve)
  then show ?case using Cons.prems unreferenced_serve [of ws a r] by simp
qed

lemma set_update_distinct:
  "distinct (map fst al) \<Longrightarrow>
   set (AList.update k v al) = {e \<in> set al. fst e \<noteq> k} \<union> {(k, v)}"
  by (induction al) (auto simp: rev_image_eqI)

lemma auth_redir_eq:
  "auth_redir u s ws = (a, ws') \<longleftrightarrow>
   a = length (queues ws) \<and>
   ws' = ws\<lparr>auth_redirs := AList.update s (u, length (queues ws)) (auth_redirs ws),
            queues := queues ws @ [[]]\<rparr>"
  by (auto simp: auth_redir_def Let_def)

lemma auth_redir_pending:
  "auth_redir u s ws = (a, ws') \<Longrightarrow>
   map_of (auth_redirs ws') = (map_of (auth_redirs ws))(s \<mapsto> (u, a)) \<and>
   length (queues ws') = Suc (length (queues ws)) \<and> a = length (queues ws)"
  by (auto simp: auth_redir_eq AList.update_conv')

lemma callbacks_delivered:
  "wf_WebServer ws \<Longrightarrow> map_of (auth_redirs ws) s = Some (u, a) \<Longrightarrow>
   delivered (fold serve (map Get_oauth2_msal cbs) ws) a =
     take 1 (filter (\<lambda>q. map_of q ''state'' = Some s) cbs)"
proof (induction cbs arbitrary: ws)
  case Nil
  then show ?case
    using wf_address [of ws s u a] by (simp add: delivered_def)
next
  case (Cons q cbs)
  note a = wf_address [OF Cons.prems]
  show ?case
  proof (cases "map_of q ''state''")
    case None
    then show ?thesis using Cons by (simp add: oauth2_msal_no_state)
  next
    case (Some s')
    show ?thesis
    proof (cases "s' = s")
      case True
      let ?ws' = "snd (oauth2_msal ws q)"
      have ws': "?ws' = ws\<lparr>auth_redirs := AList.delete s (auth_redirs ws),
                            queues := put_nowait a q (queues ws)\<rparr>"
        using Some True Cons.prems(2) by (simp add: oauth2_msal_matched)
      have mem: "(s, (u, a)) \<in> set (auth_redirs ws)"
        using Cons.prems(2) by (rule map_of_SomeD)
      have inj: "inj_on (\<lambda>e. snd (snd e)) (set (auth_redirs ws))"
        using Cons.prems(1) by (simp add: wf_WebServer_def addresses_def distinct_map)
      have unref: "a \<notin> set (addresses ?ws')"
      proof
        assume "a \<in> set (addresses ?ws')"
        then obtain e where e: "e \<in> set (AList.delete s (auth_redirs ws))" "snd (snd e) = a"
          unfolding ws' by (auto simp: addresses_def)
        then have e': "e \<in> set (auth_redirs ws)" "fst e \<noteq> s"
          by (auto simp: AList.delete_eq)
        have "e = (s, (u, a))"
          using inj_onD [OF inj _ e'(1) mem] e(2) by simp
        then show False using e'(2) by simp
      qed
      have "delivered (fold serve (map Get_oauth2_msal cbs) ?ws') a = delivered ?ws' a"
        using unref a by (intro unreferenced_fold_serve wf_oauth2_msal Cons.prems(1)) (simp add: ws')
      also have "\<dots> = [q]"
        using a unfolding ws' by (simp add: delivered_def put_nowait_def)
      finally show ?thesis using Some True by simp
    next
      case False
      have "map_of (auth_redirs (snd (oauth2_msal ws q))) s = Some (u, a)"
      proof (cases "map_of (auth_redirs ws) s'")
        case None
        then show ?thesis using Some Cons.prems(2) by (simp add: oauth2_msal_unmatched)
      next
        case (Some p)
        then show ?thesis
          using \<open>map_of q ''state'' = Some s'\<close> Cons.prems(2) False
          by (cases p) (simp add: oauth2_msal_matched AList.delete_conv')
      qed
      then have "delivered (fold serve (map Get_oauth2_msal cbs) (snd (oauth2_msal ws q))) a =
          take 1 (filter (\<lambda>q. map_of q ''state'' = Some s) cbs)"
        by (intro Cons.IH wf_oauth2_msal Cons.prems(1))
      then show ?thesis using Some False by simp
    qed
  qed
qed

lemma auth_redir_all_other:
  "s \<notin> snd ` set regs \<Longrightarrow>
   map_of (auth_redirs (snd (auth_redir_all regs ws))) s = map_of (auth_redirs ws) s"
proof (induction regs arbitrary: ws)
  case Nil
  then show ?case by simp
next
  case (Cons r regs)
  obtain u s' where r: "r = (u, s')" by (cases r)
  have "map_of (auth_redirs (snd (auth_redir_all regs (snd (auth_redir u s' ws))))) s =
        map_of (auth_redirs (snd (auth_redir u s' ws))) s"
    using Cons.prems by (intro Cons.IH) simp
  also have "\<dots> = map_of (auth_redirs ws) s"
    using Cons.prems r auth_redir_pending [of u s' ws] by (cases "auth_redir u s' ws") auto
  finally show ?case
    using r by (simp add: split_beta Let_def)
qed

lemma auth_redir_all_pending:
  "wf_WebServer ws \<Longrightarrow> distinct (map snd regs) \<Longrightarrow> auth_redir_all regs ws = (as, ws1) \<Longrightarrow>
   wf_WebServer ws1 \<and> as = [length (queues ws) ..< length (queues ws) + length regs] \<and>
   (\<forall>i<length regs. map_of (auth_redirs ws1) (snd (regs ! i)) = Some (fst (regs ! i), as ! i))"
proof (induction regs arbitrary: ws as ws1)
  case Nil
  then show ?case by simp
next
  case (Cons r regs)
  obtain u s where r: "r = (u, s)" by (cases r)
  obtain a ws' where ar: "auth_redir u s ws = (a, ws')" by (cases "auth_redir u s ws")
  obtain as' ws2 where rest: "auth_redir_all regs ws' = (as', ws2)"
    by (cases "auth_redir_all regs ws'")
  have eq: "as = a # as'" "ws1 = ws2"
    using Cons.prems(3) r ar rest by simp_all
  have wf': "wf_WebServer ws'"
    using wf_auth_redir [OF Cons.prems(1), of u s] ar by simp
  note p = auth_redir_pending [OF ar]
  have IH: "wf_WebServer ws2 \<and> as' = [length (queues ws') ..< length (queues ws') + length regs] \<and>
     (\<forall>i<length regs. map_of (auth_redirs ws2) (snd (regs ! i)) = Some (fst (regs ! i), as' ! i))"
    using Cons.prems(2) by (intro Cons.IH [OF wf' _ rest]) simp
  have "s \<notin> snd ` set regs" using Cons.prems(2) r by simp
  then have first: "map_of (auth_redirs ws2) s = Some (u, a)"
    using auth_redir_all_other [of s regs ws'] rest p by simp
  have "[length (queues ws) ..< length (queues ws) + length (r # regs)] =
        length (queues ws) # [Suc (length (queues ws)) ..< Suc (length (queues ws)) + length regs]"
    by (subst upt_rec) simp
  then have "as = [length (queues ws) ..< length (queues ws) + length (r # regs)]"
    using IH p eq by simp
  moreover have "\<forall>i<length (r # regs).
      map_of (auth_redirs ws1) (snd ((r # regs) ! i)) = Some (fst ((r # regs) ! i), as ! i)"
  proof (intro allI impI)
    fix i assume "i < length (r # regs)"
    then show "map_of (auth_redirs ws1) (snd ((r # regs) ! i)) = Some (fst ((r # regs) ! i), as ! i)"
      using first IH eq r by (cases i) simp_all
  qed
  ultimately show ?case using IH eq by simp
qed

lemma count_mset_map:
  "count (mset (map f xs)) x = length (filter (\<lambda>q. f q = x) xs)"
  by (induction xs) auto

lemma two_pending_eq:
  "two_pending = \<lparr>auth_redirs = [(''s1'', (''https://login/a'', 0)), (''s2'', (''https://login/b'', 1))],
                   queues = [[], []], runner = None\<rparr>"
  by (simp add: two_pending_def auth_redir_def WebServer_init_def Let_def)

section \<open>The callback endpoint\<close>

text \<open>
  C7: a callback whose \<open>state\<close> parameter is pending removes exactly that entry and
  puts the whole query into the queue of the entry, leaving the other queues alone; a
  callback whose \<open>state\<close> is not pending changes nothing; either way the handler
  answers with a redirection, to the target of an entry that is still pending when
  there is one, and to the root page otherwise.
\<close>

theorem oauth2_msal_callback:
  assumes "wf_WebServer ws" and "map_of q ''state'' = Some s"
  shows "\<exists>r ws'. oauth2_msal ws q = (Inr r, ws') \<and>
     (case map_of (auth_redirs ws) s of
        Some (u, a) \<Rightarrow>
          set (auth_redirs ws') = set (auth_redirs ws) - {(s, (u, a))} \<and>
          map_of (auth_redirs ws') s = None \<and>
          delivered ws' a = delivered ws a @ [q] \<and>
          (\<forall>b. b \<noteq> a \<longrightarrow> delivered ws' b = delivered ws b)
      | None \<Rightarrow> ws' = ws) \<and>
     (if auth_redirs ws' = [] then r = HTTPFound url
      else r \<in> (\<lambda>e. HTTPFound (fst (snd e))) ` set (auth_redirs ws'))"
proof (cases "map_of (auth_redirs ws) s")
  case None
  then show ?thesis
    using assms(2) redirect_pending_cases [of ws "HTTPFound url"]
    by (simp add: oauth2_msal_unmatched)
next
  case (Some p)
  obtain u a where p: "p = (u, a)" by (cases p)
  let ?ws' = "ws\<lparr>auth_redirs := AList.delete s (auth_redirs ws),
                 queues := put_nowait a q (queues ws)\<rparr>"
  have a: "a < length (queues ws)"
    using wf_address [OF assms(1)] Some p by simp
  have 1: "set (auth_redirs ?ws') = set (auth_redirs ws) - {(s, (u, a))}"
    using assms(1) Some p by (simp add: set_delete_distinct wf_WebServer_def)
  have 2: "map_of (auth_redirs ?ws') s = None"
    by (simp add: AList.delete_conv')
  have 3: "delivered ?ws' a = delivered ws a @ [q]"
    and 4: "\<forall>b. b \<noteq> a \<longrightarrow> delivered ?ws' b = delivered ws b"
    using a by (simp_all add: delivered_put_nowait)
  show ?thesis
    using assms(2) Some p 1 2 3 4 redirect_pending_cases [of ?ws' "HTTPFound url"]
    by (simp add: oauth2_msal_matched)
qed

theorem oauth2_msal_callback_witness:
  "wf_WebServer two_pending \<and>
   map_of [(''code'', ''x''), (''state'', ''s2'')] ''state'' = Some ''s2'' \<and>
   fst (oauth2_msal two_pending [(''code'', ''x''), (''state'', ''s2'')]) =
     Inr (HTTPFound ''https://login/a'') \<and>
   delivered (snd (oauth2_msal two_pending [(''code'', ''x''), (''state'', ''s2'')])) 1 =
     [[(''code'', ''x''), (''state'', ''s2'')]]"
proof -
  have h1: "wf_WebServer two_pending"
    by (simp add: two_pending_eq wf_WebServer_def addresses_def)
  have h2: "map_of [(''code'', ''x''), (''state'', ''s2'')] ''state'' = Some ''s2''"
    by simp
  show ?thesis
    using h1 h2 oauth2_msal_callback [OF h1 h2]
    by (simp add: two_pending_eq oauth2_msal_def redirect_pending_def put_nowait_def
        delivered_def AList.delete_eq Let_def)
qed

text \<open>
  C10: a callback request without a \<open>state\<close> parameter raises \<^verbatim>\<open>KeyError\<close> out of the
  handler, whatever is pending, and changes nothing; with the parameter present the
  handler never raises, so a parameter that matches no pending entry is ignored in
  silence: the pending entries and the queues stay as they are and the browser is
  redirected.
\<close>

theorem oauth2_msal_missing_state:
  "(map_of q ''state'' = None \<longrightarrow> oauth2_msal ws q = (Inl KeyError, ws)) \<and>
   (map_of q ''state'' = Some s \<longrightarrow> (\<exists>r ws'. oauth2_msal ws q = (Inr r, ws'))) \<and>
   (map_of q ''state'' = Some s \<and> map_of (auth_redirs ws) s = None \<longrightarrow>
      oauth2_msal ws q = (Inr (redirect_pending ws (HTTPFound url)), ws))"
  by (simp add: oauth2_msal_def Let_def)

theorem oauth2_msal_missing_state_witness:
  "oauth2_msal two_pending [(''code'', ''x'')] = (Inl KeyError, two_pending) \<and>
   oauth2_msal two_pending [(''state'', ''zz'')] = (Inr (HTTPFound ''https://login/a''), two_pending)"
  using oauth2_msal_missing_state [of "[(''code'', ''x'')]" two_pending "''zz''"]
    oauth2_msal_missing_state [of "[(''state'', ''zz'')]" two_pending "''zz''"]
  by (simp add: two_pending_eq redirect_pending_def)

section \<open>Concurrent authentications\<close>

text \<open>
  C6: after \<open>N\<close> calls of \<^verbatim>\<open>auth_redir\<close> with pairwise distinct state tokens on a new
  server, the callers wait on \<open>N\<close> different queues; once the \<open>N\<close> callbacks, one per
  token, have come in any order, each caller has been given exactly the query of the
  callback that carries its token; and whatever callbacks come, in whatever number and
  order, nothing that carries another token is ever put into a caller's queue.
\<close>

theorem auth_multiplexing:
  assumes "distinct (map snd regs)"
    and "auth_redir_all regs WebServer_init = (as, ws1)"
    and "mset (map (\<lambda>q. map_of q ''state'') cbs) = mset (map (\<lambda>r. Some (snd r)) regs)"
    and "i < length regs"
  shows "distinct as \<and> length as = length regs \<and>
     delivered (fold serve (map Get_oauth2_msal cbs) ws1) (as ! i) =
       filter (\<lambda>q. map_of q ''state'' = Some (snd (regs ! i))) cbs \<and>
     length (filter (\<lambda>q. map_of q ''state'' = Some (snd (regs ! i))) cbs) = 1 \<and>
     (\<forall>cbs' q. q \<in> set (delivered (fold serve (map Get_oauth2_msal cbs') ws1) (as ! i)) \<longrightarrow>
        map_of q ''state'' = Some (snd (regs ! i)))"
proof -
  let ?s = "snd (regs ! i)"
  let ?P = "\<lambda>q. map_of q ''state'' = Some ?s"
  note reg = auth_redir_all_pending [OF wf_init assms(1) assms(2)]
  have as: "as = [length (queues WebServer_init) ..< length (queues WebServer_init) + length regs]"
    using reg by simp
  have d: "distinct as" and l: "length as = length regs"
    unfolding as by simp_all
  have pend: "map_of (auth_redirs ws1) ?s = Some (fst (regs ! i), as ! i)"
    using reg assms(4) by simp
  have wf: "wf_WebServer ws1" using reg by simp
  have del: "\<And>cs. delivered (fold serve (map Get_oauth2_msal cs) ws1) (as ! i) = take 1 (filter ?P cs)"
    by (rule callbacks_delivered [OF wf pend])
  have "distinct (map (\<lambda>r. Some (snd r)) regs)"
    using assms(1) by (simp add: distinct_map inj_on_def)
  moreover have "Some ?s \<in> set (map (\<lambda>r. Some (snd r)) regs)"
    using assms(4) by auto
  ultimately have "count (mset (map (\<lambda>r. Some (snd r)) regs)) (Some ?s) = 1"
    by (simp add: distinct_count_atmost_1)
  then have one: "length (filter ?P cbs) = 1"
    using assms(3) count_mset_map [of "\<lambda>q. map_of q ''state''" cbs "Some ?s"] by simp
  have "\<forall>cbs' q. q \<in> set (delivered (fold serve (map Get_oauth2_msal cbs') ws1) (as ! i)) \<longrightarrow> ?P q"
    unfolding del by (auto dest: in_set_takeD)
  then show ?thesis
    using d l one del [of cbs] by simp
qed

theorem auth_multiplexing_witness:
  "distinct (map snd [(''https://login/a'', ''s1''), (''https://login/b'', ''s2'')]) \<and>
   auth_redir_all [(''https://login/a'', ''s1''), (''https://login/b'', ''s2'')] WebServer_init =
     ([0, 1], two_pending) \<and>
   mset (map (\<lambda>q. map_of q ''state'') [[(''state'', ''s2''), (''code'', ''y'')], [(''state'', ''s1''), (''code'', ''x'')]]) =
     mset (map (\<lambda>r. Some (snd r)) [(''https://login/a'', ''s1''), (''https://login/b'', ''s2'')]) \<and>
   (0::nat) < length [(''https://login/a'', ''s1''), (''https://login/b'', ''s2'')] \<and>
   delivered (fold serve (map Get_oauth2_msal
       [[(''state'', ''s2''), (''code'', ''y'')], [(''state'', ''s1''), (''code'', ''x'')]]) two_pending) 0 =
     [[(''state'', ''s1''), (''code'', ''x'')]]"
proof -
  let ?regs = "[(''https://login/a'', ''s1''), (''https://login/b'', ''s2'')]"
  let ?cbs = "[[(''state'', ''s2''), (''code'', ''y'')], [(''state'', ''s1''), (''code'', ''x'')]]"
  have h1: "distinct (map snd ?regs)" by simp
  have h2: "auth_redir_all ?regs WebServer_init = ([0, 1], two_pending)"
    by (simp add: two_pending_def auth_redir_def WebServer_init_def Let_def)
  have h3: "mset (map (\<lambda>q. map_of q ''state'') ?cbs) = mset (map (\<lambda>r. Some (snd r)) ?regs)"
    by simp
  have h4: "(0::nat) < length ?regs" by simp
  show ?thesis
    using h1 h2 h3 h4 auth_multiplexing [OF h1 h2 h3 h4] by simp
qed

text \<open>
  C8: in every state that the server reaches the pending entries have distinct state
  tokens. When a caller is pending under a token and \<^verbatim>\<open>auth_redir\<close> is called again
  with that token, the entry is replaced by the new target and the new queue; a callback
  for the token is then given to the second caller only, and whatever requests follow,
  the queue of the first caller stays empty: that caller is suspended for ever.
\<close>

theorem auth_redir_same_state:
  assumes "ws = fold serve rs0 WebServer_init"
    and "auth_redir u1 s ws = (a1, ws1)"
    and "ws1' = fold serve rs1 ws1"
    and "map_of (auth_redirs ws1') s = Some (u1, a1)"
    and "auth_redir u2 s ws1' = (a2, ws2)"
  shows "distinct (map fst (auth_redirs (fold serve rs2 ws2))) \<and>
     map_of (auth_redirs ws2) s = Some (u2, a2) \<and> a2 \<noteq> a1 \<and>
     delivered (fold serve rs2 ws2) a1 = [] \<and>
     (map_of q ''state'' = Some s \<longrightarrow>
        delivered (snd (oauth2_msal ws2 q)) a2 = [q] \<and>
        delivered (fold serve rs2 (snd (oauth2_msal ws2 q))) a1 = [])"
proof -
  have wf: "wf_WebServer ws"
    unfolding assms(1) by (rule wf_fold_serve [OF wf_init])
  have wf1: "wf_WebServer ws1"
    using wf_auth_redir [OF wf, of u1 s] assms(2) by simp
  have wf1': "wf_WebServer ws1'"
    unfolding assms(3) by (rule wf_fold_serve [OF wf1])
  have wf2: "wf_WebServer ws2"
    using wf_auth_redir [OF wf1', of u2 s] assms(5) by simp
  note a1 = wf_address [OF wf1' assms(4)]
  note eq2 = assms(5) [unfolded auth_redir_eq]
  have a2: "a2 = length (queues ws1')" and q2: "queues ws2 = queues ws1' @ [[]]"
    using eq2 by simp_all
  have ne: "a2 \<noteq> a1" using a1 a2 by simp
  have pend2: "map_of (auth_redirs ws2) s = Some (u2, a2)"
    using auth_redir_pending [OF assms(5)] by simp
  have set2: "set (auth_redirs ws2) = {e \<in> set (auth_redirs ws1'). fst e \<noteq> s} \<union> {(s, (u2, a2))}"
    using eq2 wf1' by (simp add: set_update_distinct wf_WebServer_def)
  have inj: "inj_on (\<lambda>e. snd (snd e)) (set (auth_redirs ws1'))"
    using wf1' by (simp add: wf_WebServer_def addresses_def distinct_map)
  have mem: "(s, (u1, a1)) \<in> set (auth_redirs ws1')"
    using assms(4) by (rule map_of_SomeD)
  have unref: "a1 \<notin> set (addresses ws2)"
  proof
    assume "a1 \<in> set (addresses ws2)"
    then obtain e where e: "e \<in> set (auth_redirs ws2)" "snd (snd e) = a1"
      by (auto simp: addresses_def)
    from e(1) show False
      unfolding set2
    proof
      assume "e \<in> {e \<in> set (auth_redirs ws1'). fst e \<noteq> s}"
      then have e': "e \<in> set (auth_redirs ws1')" "fst e \<noteq> s" by simp_all
      have "e = (s, (u1, a1))"
        using inj_onD [OF inj _ e'(1) mem] e(2) by simp
      then show False using e'(2) by simp
    next
      assume "e \<in> {(s, (u2, a2))}"
      then show False using e(2) ne by simp
    qed
  qed
  have lt: "a1 < length (queues ws2)" using a1 q2 by simp
  have empty2: "delivered ws2 a1 = []"
    using a1 q2 by (simp add: delivered_def nth_append)
  have never: "delivered (fold serve rs2 ws2) a1 = []"
    using unreferenced_fold_serve [OF wf2 lt unref] empty2 by simp
  have cb: "delivered (snd (oauth2_msal ws2 q)) a2 = [q] \<and>
            delivered (fold serve rs2 (snd (oauth2_msal ws2 q))) a1 = []"
    if q: "map_of q ''state'' = Some s"
  proof -
    have a2': "a2 < length (queues ws2)" "queues ws2 ! a2 = []"
      using wf_address [OF wf2 pend2] by simp_all
    have "delivered (snd (oauth2_msal ws2 q)) a2 = [q]"
      using q pend2 a2' by (simp add: oauth2_msal_matched delivered_def put_nowait_def)
    moreover have "delivered (fold serve (Get_oauth2_msal q # rs2) ws2) a1 = []"
      using unreferenced_fold_serve [OF wf2 lt unref, of "Get_oauth2_msal q # rs2"] empty2
      by (simp only:)
    ultimately show ?thesis by simp
  qed
  have "distinct (map fst (auth_redirs (fold serve rs2 ws2)))"
    using wf_fold_serve [OF wf2, of rs2] by (simp add: wf_WebServer_def)
  then show ?thesis using pend2 ne never cb by simp
qed

theorem auth_redir_same_state_witness:
  "auth_redir ''https://login/a'' ''s1'' (fold serve [] WebServer_init) =
     (0, snd (auth_redir ''https://login/a'' ''s1'' WebServer_init)) \<and>
   map_of (auth_redirs two_pending) ''s1'' = Some (''https://login/a'', 0) \<and>
   auth_redir ''https://login/c'' ''s1'' two_pending =
     (2, snd (auth_redir ''https://login/c'' ''s1'' two_pending)) \<and>
   map_of (auth_redirs (snd (auth_redir ''https://login/c'' ''s1'' two_pending))) ''s1'' =
     Some (''https://login/c'', 2) \<and>
   delivered (fold serve [Get_oauth2_msal [(''state'', ''s1'')], Get_start]
      (snd (auth_redir ''https://login/c'' ''s1'' two_pending))) 0 = [] \<and>
   delivered (snd (oauth2_msal (snd (auth_redir ''https://login/c'' ''s1'' two_pending))
      [(''state'', ''s1'')])) 2 = [[(''state'', ''s1'')]]"
proof -
  let ?ws1 = "snd (auth_redir ''https://login/a'' ''s1'' WebServer_init)"
  let ?ws2 = "snd (auth_redir ''https://login/c'' ''s1'' two_pending)"
  have h1: "fold serve [] WebServer_init = fold serve [] WebServer_init" by simp
  have h2: "auth_redir ''https://login/a'' ''s1'' (fold serve [] WebServer_init) = (0, ?ws1)"
    by (simp add: auth_redir_def WebServer_init_def Let_def)
  have h3: "two_pending = fold serve [Auth_redir ''https://login/b'' ''s2''] ?ws1"
    by (simp add: two_pending_def)
  have h4: "map_of (auth_redirs two_pending) ''s1'' = Some (''https://login/a'', 0)"
    by (simp add: two_pending_eq)
  have h5: "auth_redir ''https://login/c'' ''s1'' two_pending = (2, ?ws2)"
    by (simp add: two_pending_eq auth_redir_def Let_def)
  have h6: "map_of [(''state'', ''s1'')] ''state'' = Some ''s1''" by simp
  show ?thesis
    using h2 h4 h5 h6
      auth_redir_same_state [OF h1 h2 h3 h4 h5,
        of "[Get_oauth2_msal [(''state'', ''s1'')], Get_start]" "[(''state'', ''s1'')]"]
    by simp
qed

section \<open>Routing the cloud messages\<close>

lemma keys_update_existing:
  "map_of al k = Some v \<Longrightarrow> map fst (AList.update k v' al) = map fst al"
  by (induction al) auto

lemma keys_fold_update:
  "fst ` set (fold (\<lambda>k al. AList.update k v al) ks al) = set ks \<union> fst ` set al"
  by (induction ks arbitrary: al) (auto simp: AList.dom_update)

lemma keys_empty_targets: "fst ` set (empty_targets ls) = set ls"
  by (simp add: empty_targets_def keys_fold_update)

lemma route_items_append:
  "route_items cfg (xs @ ys) msgs =
     (case route_items cfg xs msgs of Inl e \<Rightarrow> Inl e | Inr msgs' \<Rightarrow> route_items cfg ys msgs')"
  by (induction xs arbitrary: msgs) (auto split: sum.splits option.splits)

lemma route_mboxes_concat:
  "route_mboxes X cfg w cs msgs = route_items cfg (concat (map (\<lambda>c. messages X c w) cs)) msgs"
  by (induction cs arbitrary: msgs) (auto simp: route_items_append split: sum.splits)

lemma route_items_keys:
  "route_items cfg items msgs = Inr msgs' \<Longrightarrow> map fst msgs' = map fst msgs"
proof (induction items arbitrary: msgs)
  case Nil
  then show ?case by simp
next
  case (Cons x items)
  obtain ch m where x: "x = (ch, m)" by (cases x)
  from Cons.prems x obtain dest d where
    s: "direct_message cfg m = Inr dest" "map_of msgs dest = Some d"
       "route_items cfg items (AList.update dest (AList.update ch m d) msgs) = Inr msgs'"
    by (auto split: sum.splits option.splits)
  have "map fst msgs' = map fst (AList.update dest (AList.update ch m d) msgs)"
    by (rule Cons.IH [OF s(3)])
  then show ?case using s(2) by (simp add: keys_update_existing)
qed

lemma inner_distinct_fold:
  "inner_distinct al \<Longrightarrow> inner_distinct (fold (\<lambda>k al. AList.update k [] al) ks al)"
proof (induction ks arbitrary: al)
  case Nil
  then show ?case by simp
next
  case (Cons k ks)
  have "inner_distinct (AList.update k [] al)"
    using Cons.prems set_update_subset [of k "[]" al] by (fastforce simp: inner_distinct_def)
  then show ?case by (simp add: Cons.IH)
qed

lemma inner_distinct_empty_targets: "inner_distinct (empty_targets ls)"
  unfolding empty_targets_def by (rule inner_distinct_fold) (simp add: inner_distinct_def)

lemma route_items_inner_distinct:
  "route_items cfg items msgs = Inr msgs' \<Longrightarrow> inner_distinct msgs \<Longrightarrow> inner_distinct msgs'"
proof (induction items arbitrary: msgs)
  case Nil
  then show ?case by simp
next
  case (Cons x items)
  obtain ch m where x: "x = (ch, m)" by (cases x)
  from Cons.prems(1) x obtain dest d where
    s: "direct_message cfg m = Inr dest" "map_of msgs dest = Some d"
       "route_items cfg items (AList.update dest (AList.update ch m d) msgs) = Inr msgs'"
    by (auto split: sum.splits option.splits)
  have "(dest, d) \<in> set msgs" using s(2) by (rule map_of_SomeD)
  then have "distinct (map fst (AList.update ch m d))"
    using Cons.prems(2) by (auto simp: inner_distinct_def AList.distinct_update)
  then have "inner_distinct (AList.update dest (AList.update ch m d) msgs)"
    using Cons.prems(2) set_update_subset [of dest "AList.update ch m d" msgs]
    by (fastforce simp: inner_distinct_def)
  then show ?case by (rule Cons.IH [OF s(3)])
qed

lemma one_entry:
  "distinct (map fst d) \<Longrightarrow> map_of d k = Some v \<Longrightarrow> length (filter (\<lambda>e. fst e = k) d) = 1"
proof (induction d)
  case Nil
  then show ?case by simp
next
  case (Cons p d)
  show ?case
  proof (cases "fst p = k")
    case True
    have "fst p \<notin> fst ` set d"
      using Cons.prems(1) by simp
    then have "\<And>e. e \<in> set d \<Longrightarrow> fst e \<noteq> k"
      using True by (metis imageI)
    then have "filter (\<lambda>e. fst e = k) d = []"
      by (simp add: filter_empty_conv)
    then show ?thesis using True by simp
  next
    case False
    then show ?thesis using Cons by (cases p) auto
  qed
qed

lemma force_local_to_cloud_route:
  "force_local_to_cloud X cfg w = (Inr msgs, w', t) \<Longrightarrow> route X cfg w = Inr msgs"
  by (auto simp: force_local_to_cloud_def split: sum.splits prod.splits option.splits)

text \<open>The record under a key of a target snapshot is the last one written there.\<close>

lemma route_items_last:
  "route_items cfg items msgs = Inr msgs' \<Longrightarrow> map_of msgs dest = Some d \<Longrightarrow>
   \<exists>d'. map_of msgs' dest = Some d' \<and>
        map_of d' ch = (if routed_under cfg ch dest items = [] then map_of d ch
                        else Some (last (routed_under cfg ch dest items)))"
proof (induction items arbitrary: msgs d)
  case Nil
  then show ?case by (simp add: routed_under_def)
next
  case (Cons x items)
  obtain ch0 m0 where x: "x = (ch0, m0)" by (cases x)
  from Cons.prems(1) x obtain dest0 d0 where
    s: "direct_message cfg m0 = Inr dest0" "map_of msgs dest0 = Some d0"
       "route_items cfg items (AList.update dest0 (AList.update ch0 m0 d0) msgs) = Inr msgs'"
    by (auto split: sum.splits option.splits)
  let ?msgs1 = "AList.update dest0 (AList.update ch0 m0 d0) msgs"
  let ?R = "routed_under cfg ch dest items"
  show ?case
  proof (cases "ch0 = ch \<and> dest0 = dest")
    case True
    then have d0: "d0 = d" using s(2) Cons.prems(2) by simp
    have 1: "map_of ?msgs1 dest = Some (AList.update ch m0 d)"
      using True d0 by (simp add: AList.update_conv')
    from Cons.IH [OF s(3) 1] obtain d' where
      d': "map_of msgs' dest = Some d'"
          "map_of d' ch = (if ?R = [] then map_of (AList.update ch m0 d) ch else Some (last ?R))"
      by blast
    have r: "routed_under cfg ch dest (x # items) = m0 # ?R"
      using True x s(1) by (simp add: routed_under_def)
    have "map_of d' ch = Some (last (m0 # ?R))"
      using d'(2) by (simp add: AList.update_conv')
    then show ?thesis using d'(1) r by simp
  next
    case False
    have r: "routed_under cfg ch dest (x # items) = ?R"
      using False x s(1) by (auto simp: routed_under_def)
    have "\<exists>d1. map_of ?msgs1 dest = Some d1 \<and> map_of d1 ch = map_of d ch"
    proof (cases "dest0 = dest")
      case True
      then have "d0 = d" using s(2) Cons.prems(2) by simp
      moreover have "ch0 \<noteq> ch" using False True by simp
      ultimately show ?thesis using True by (simp add: AList.update_conv')
    next
      case False
      then show ?thesis using Cons.prems(2) by (simp add: AList.update_conv')
    qed
    then obtain d1 where d1: "map_of ?msgs1 dest = Some d1" "map_of d1 ch = map_of d ch"
      by blast
    from Cons.IH [OF s(3) d1(1)] obtain d' where
      "map_of msgs' dest = Some d'"
      "map_of d' ch = (if ?R = [] then map_of d1 ch else Some (last ?R))"
      by blast
    then show ?thesis using r d1(2) by simp
  qed
qed

lemma route_items_dest:
  "route_items cfg items msgs = Inr msgs' \<Longrightarrow> (ch, m) \<in> set items \<Longrightarrow>
   \<exists>dest d. direct_message cfg m = Inr dest \<and> map_of msgs dest = Some d"
proof (induction items arbitrary: msgs)
  case Nil
  then show ?case by simp
next
  case (Cons x items)
  obtain ch0 m0 where x: "x = (ch0, m0)" by (cases x)
  from Cons.prems(1) x obtain dest0 d0 where
    s: "direct_message cfg m0 = Inr dest0" "map_of msgs dest0 = Some d0"
       "route_items cfg items (AList.update dest0 (AList.update ch0 m0 d0) msgs) = Inr msgs'"
    by (auto split: sum.splits option.splits)
  show ?case
  proof (cases "(ch, m) = (ch0, m0)")
    case True
    then show ?thesis using s(1,2) by simp
  next
    case False
    then have "(ch, m) \<in> set items" using Cons.prems(2) x by auto
    from Cons.IH [OF s(3) this] obtain dest d1 where
      d: "direct_message cfg m = Inr dest"
         "map_of (AList.update dest0 (AList.update ch0 m0 d0) msgs) dest = Some d1"
      by blast
    have "\<exists>d. map_of msgs dest = Some d"
      using d(2) s(2) by (cases "dest = dest0") (auto simp: AList.update_conv')
    then show ?thesis using d(1) by blast
  qed
qed

text \<open>
  C3, as the code has it: when \<^verbatim>\<open>force_local_to_cloud\<close> returns, for a message \<open>m\<close> that a
  cloud mailbox holds under the key \<open>ch\<close>, the target snapshot of the local mailbox
  \<open>direct_message m\<close> has exactly one entry under \<open>ch\<close>. The mailboxes are visited in the order
  of \<^verbatim>\<open>cfg.cloud_mboxes\<close> and write into one dictionary per local mailbox, so that entry's
  record is the one visited last among the cloud records held under \<open>ch\<close> and routed to that
  local mailbox, of which \<open>m\<close> is one: a later record replaces an earlier one. The entry's
  record is \<open>m\<close> exactly when \<open>m\<close> is that last record, as it is when no other record is held
  under the same key by a cloud mailbox and routed to the same local mailbox.
\<close>

theorem routing_completeness:
  assumes "force_local_to_cloud X cfg w = (Inr msgs, w', t)"
    and "c \<in> set (cloud_mboxes cfg)" and "(ch, m) \<in> set (messages X c w)"
  shows "\<exists>dest d. direct_message cfg m = Inr dest \<and> map_of msgs dest = Some d \<and>
           length (filter (\<lambda>e. fst e = ch) d) = 1 \<and>
           m \<in> set (routed_under cfg ch dest (cloud_items X cfg w)) \<and>
           map_of d ch = Some (last (routed_under cfg ch dest (cloud_items X cfg w))) \<and>
           (map_of d ch = Some m \<longleftrightarrow> last (routed_under cfg ch dest (cloud_items X cfg w)) = m) \<and>
           ((\<forall>m' \<in> set (routed_under cfg ch dest (cloud_items X cfg w)). m' = m) \<longrightarrow>
              map_of d ch = Some m)"
proof -
  let ?items = "cloud_items X cfg w"
  have r: "route_items cfg ?items (empty_targets (local_mboxes cfg)) = Inr msgs"
    using force_local_to_cloud_route [OF assms(1)]
    by (simp add: route_def route_mboxes_concat cloud_items_def)
  have mem: "(ch, m) \<in> set ?items"
    using assms(2,3) by (auto simp: cloud_items_def)
  from route_items_dest [OF r mem] obtain dest d0 where
    d0: "direct_message cfg m = Inr dest" "map_of (empty_targets (local_mboxes cfg)) dest = Some d0"
    by blast
  let ?R = "routed_under cfg ch dest ?items"
  have in_R: "m \<in> set ?R"
  proof -
    have "(ch, m) \<in> set (filter (\<lambda>(ch', m'). ch' = ch \<and> direct_message cfg m' = Inr dest) ?items)"
      using mem d0(1) by simp
    then have "snd (ch, m) \<in> snd ` set (filter (\<lambda>(ch', m'). ch' = ch \<and> direct_message cfg m' = Inr dest) ?items)"
      by (rule imageI)
    then show ?thesis by (simp add: routed_under_def)
  qed
  then have ne: "?R \<noteq> []" by auto
  from route_items_last [OF r d0(2), of ch] ne obtain d where
    d: "map_of msgs dest = Some d" "map_of d ch = Some (last ?R)"
    by auto
  have "inner_distinct msgs"
    by (rule route_items_inner_distinct [OF r inner_distinct_empty_targets])
  moreover have "(dest, d) \<in> set msgs" using d(1) by (rule map_of_SomeD)
  ultimately have "distinct (map fst d)" by (auto simp: inner_distinct_def)
  then have one: "length (filter (\<lambda>e. fst e = ch) d) = 1"
    using d(2) by (rule one_entry)
  have iff: "map_of d ch = Some m \<longleftrightarrow> last ?R = m"
    using d(2) by simp
  have only: "(\<forall>m' \<in> set ?R. m' = m) \<longrightarrow> map_of d ch = Some m"
  proof
    assume a: "\<forall>m' \<in> set ?R. m' = m"
    have "last ?R \<in> set ?R" using ne by (rule last_in_set)
    then have "last ?R = m" using a by blast
    then show "map_of d ch = Some m" using d(2) by simp
  qed
  show ?thesis
    using d0(1) d(1) one in_R d(2) iff only by blast
qed

lemmas eval_route = force_local_to_cloud_def route_def empty_targets_def direct_message_def
  direct_message_default_def X0_def msg_def

theorem routing_completeness_witness:
  "force_local_to_cloud X0 cfg_two w_two =
     (Inr [(0, [(7, msg 1 70), (8, msg 2 80)])],
      [(0, [(7, msg 1 70), (8, msg 2 80)]), (1, [(7, msg 1 70)]), (2, [(8, msg 2 80)])],
      [Ev_same_messages 0 [(7, msg 1 70), (8, msg 2 80)] False,
       Ev_force_content 0 [(7, msg 1 70), (8, msg 2 80)]]) \<and>
   (1::nat) \<in> set (cloud_mboxes cfg_two) \<and> (7, msg 1 70) \<in> set (messages X0 1 w_two) \<and>
   direct_message cfg_two (msg 1 70) = Inr 0 \<and>
   routed_under cfg_two 7 0 (cloud_items X0 cfg_two w_two) = [msg 1 70] \<and>
   map_of [(7::nat, msg 1 70), (8, msg 2 80)] 7 = Some (msg 1 70) \<and>
   length (filter (\<lambda>e. fst e = 7) [(7::nat, msg 1 70), (8, msg 2 80)]) = 1 \<and>
   fst (force_local_to_cloud X0 cfg_two w_same_key) = Inr [(0, [(7, msg 2 71)])] \<and>
   (2::nat) \<in> set (cloud_mboxes cfg_two) \<and> (7, msg 2 71) \<in> set (messages X0 2 w_same_key) \<and>
   routed_under cfg_two 7 0 (cloud_items X0 cfg_two w_same_key) = [msg 1 70, msg 2 71] \<and>
   map_of [(7::nat, msg 2 71)] 7 = Some (msg 2 71) \<and>
   length (filter (\<lambda>e. fst e = 7) [(7::nat, msg 2 71)]) = 1"
proof -
  let ?msgs = "[(0, [(7, msg 1 70), (8, msg 2 80)])]"
  have h1: "force_local_to_cloud X0 cfg_two w_two =
     (Inr ?msgs,
      [(0, [(7, msg 1 70), (8, msg 2 80)]), (1, [(7, msg 1 70)]), (2, [(8, msg 2 80)])],
      [Ev_same_messages 0 [(7, msg 1 70), (8, msg 2 80)] False,
       Ev_force_content 0 [(7, msg 1 70), (8, msg 2 80)]])"
    by (simp add: eval_route cfg_two_def w_two_def)
  have h2: "(1::nat) \<in> set (cloud_mboxes cfg_two)" by (simp add: cfg_two_def)
  have h3: "(7, msg 1 70) \<in> set (messages X0 1 w_two)" by (simp add: X0_def w_two_def)
  have dm: "\<And>c k. direct_message cfg_two (msg c k) = Inr 0"
    by (simp add: direct_message_def direct_message_default_def cfg_two_def)
  have r1: "routed_under cfg_two 7 0 (cloud_items X0 cfg_two w_two) = [msg 1 70]"
    by (simp add: routed_under_def cloud_items_def direct_message_def direct_message_default_def
        cfg_two_def X0_def w_two_def)
  have h4: "\<forall>m' \<in> set (routed_under cfg_two 7 0 (cloud_items X0 cfg_two w_two)). m' = msg 1 70"
    by (simp add: r1)
  have k1: "force_local_to_cloud X0 cfg_two w_same_key =
     (Inr [(0, [(7, msg 2 71)])],
      [(0, [(7, msg 2 71)]), (1, [(7, msg 1 70)]), (2, [(7, msg 2 71)])],
      [Ev_same_messages 0 [(7, msg 2 71)] False, Ev_force_content 0 [(7, msg 2 71)]])"
    by (simp add: eval_route cfg_two_def w_same_key_def)
  have k2: "(2::nat) \<in> set (cloud_mboxes cfg_two)" by (simp add: cfg_two_def)
  have k3: "(7, msg 2 71) \<in> set (messages X0 2 w_same_key)" by (simp add: X0_def w_same_key_def)
  have r2: "routed_under cfg_two 7 0 (cloud_items X0 cfg_two w_same_key) = [msg 1 70, msg 2 71]"
    by (simp add: routed_under_def cloud_items_def direct_message_def direct_message_default_def
        cfg_two_def X0_def w_same_key_def)
  show ?thesis
    using h1 h2 h3 h4 r1 routing_completeness [OF h1 h2 h3]
      k1 k2 k3 r2 routing_completeness [OF k1 k2 k3]
    by (simp add: dm)
qed

theorem routing_completeness_counterexample:
  "(1::nat) \<in> set (cloud_mboxes cfg_two) \<and> (7, msg 1 70) \<in> set (messages X0 1 w_same_key) \<and>
   fst (force_local_to_cloud X0 cfg_two w_same_key) = Inr [(0, [(7, msg 2 71)])] \<and>
   direct_message cfg_two (msg 1 70) = Inr 0 \<and>
   map_of [(0::nat, [(7::nat, msg 2 71)])] 0 = Some [(7, msg 2 71)] \<and>
   map_of [(7::nat, msg 2 71)] 7 \<noteq> Some (msg 1 70)"
  by (simp add: eval_route cfg_two_def w_same_key_def)

lemma direct_message_default_policy:
  "policy cfg = Default_policy \<Longrightarrow>
   direct_message cfg m = (case local_mboxes cfg of [] \<Rightarrow> Inl IndexError | mbox # _ \<Rightarrow> Inr mbox)"
  by (simp add: direct_message_def direct_message_default_def)

lemma route_items_default_total:
  assumes "policy cfg = Default_policy" "local_mboxes cfg = mbox # rest"
  shows "mbox \<in> fst ` set msgs \<Longrightarrow> \<exists>msgs'. route_items cfg items msgs = Inr msgs'"
proof (induction items arbitrary: msgs)
  case Nil
  then show ?case by simp
next
  case (Cons x items)
  obtain ch m where x: "x = (ch, m)" by (cases x)
  have dm: "direct_message cfg m = Inr mbox"
    using assms by (simp add: direct_message_default_policy)
  from Cons.prems obtain d where d: "map_of msgs mbox = Some d"
    by (metis domD dom_map_of_conv_image_fst)
  have "mbox \<in> fst ` set (AList.update mbox (AList.update ch m d) msgs)"
    by (simp add: AList.dom_update)
  from Cons.IH [OF this] show ?case
    using x dm d by simp
qed

lemma route_items_default_empty:
  assumes "policy cfg = Default_policy" "local_mboxes cfg = []"
  shows "route_items cfg items msgs = (if items = [] then Inr msgs else Inl IndexError)"
  using assms by (cases items) (auto simp: direct_message_default_policy)

text \<open>
  C9: the default policy returns the first local mailbox and raises \<^verbatim>\<open>IndexError\<close> when
  there is none. Under it the routing of \<^verbatim>\<open>force_local_to_cloud\<close> returns if and only if
  there is a local mailbox or every cloud snapshot is empty; otherwise
  \<^verbatim>\<open>force_local_to_cloud\<close> raises \<^verbatim>\<open>IndexError\<close> before it has touched any mailbox.
\<close>

theorem default_policy_needs_local_mbox:
  assumes "policy cfg = Default_policy"
  shows "(local_mboxes cfg = [] \<longrightarrow> direct_message cfg m = Inl IndexError) \<and>
     (local_mboxes cfg \<noteq> [] \<longrightarrow> direct_message cfg m = Inr (hd (local_mboxes cfg))) \<and>
     ((\<exists>msgs. route X cfg w = Inr msgs) \<longleftrightarrow>
        (local_mboxes cfg \<noteq> [] \<or> (\<forall>c \<in> set (cloud_mboxes cfg). messages X c w = []))) \<and>
     (\<not> (local_mboxes cfg \<noteq> [] \<or> (\<forall>c \<in> set (cloud_mboxes cfg). messages X c w = [])) \<longrightarrow>
        force_local_to_cloud X cfg w = (Inl IndexError, w, [])) \<and>
     ((\<exists>msgs w' t. force_local_to_cloud X cfg w = (Inr msgs, w', t)) \<longrightarrow>
        (local_mboxes cfg \<noteq> [] \<or> (\<forall>c \<in> set (cloud_mboxes cfg). messages X c w = [])))"
proof -
  define items where "items = concat (map (\<lambda>c. messages X c w) (cloud_mboxes cfg))"
  have r: "route X cfg w = route_items cfg items (empty_targets (local_mboxes cfg))"
    by (simp add: route_def route_mboxes_concat items_def)
  have empty_iff: "items = [] \<longleftrightarrow> (\<forall>c \<in> set (cloud_mboxes cfg). messages X c w = [])"
    by (auto simp: items_def)
  have dm: "(local_mboxes cfg = [] \<longrightarrow> direct_message cfg m = Inl IndexError) \<and>
     (local_mboxes cfg \<noteq> [] \<longrightarrow> direct_message cfg m = Inr (hd (local_mboxes cfg)))"
    using assms by (cases "local_mboxes cfg") (simp_all add: direct_message_default_policy)
  show ?thesis
  proof (cases "local_mboxes cfg")
    case Nil
    have rr: "route X cfg w = (if items = [] then Inr (empty_targets []) else Inl IndexError)"
      unfolding r using route_items_default_empty [OF assms Nil] Nil by simp
    show ?thesis
    proof (cases "items = []")
      case True
      then show ?thesis using dm Nil rr empty_iff by auto
    next
      case False
      then have e: "route X cfg w = Inl IndexError" using rr by simp
      then have "force_local_to_cloud X cfg w = (Inl IndexError, w, [])"
        by (simp add: force_local_to_cloud_def)
      then show ?thesis using dm Nil e False empty_iff by auto
    qed
  next
    case (Cons mbox rest)
    have "mbox \<in> fst ` set (empty_targets (local_mboxes cfg))"
      using Cons by (simp add: keys_empty_targets)
    then have "\<exists>msgs. route X cfg w = Inr msgs"
      unfolding r by (rule route_items_default_total [OF assms Cons])
    then show ?thesis using dm Cons by simp
  qed
qed

theorem default_policy_needs_local_mbox_witness:
  "policy cfg_no_local = Default_policy \<and>
   direct_message cfg_no_local (msg 1 70) = Inl IndexError \<and>
   force_local_to_cloud X0 cfg_no_local world0 = (Inl IndexError, world0, []) \<and>
   policy cfg0 = Default_policy \<and> direct_message cfg0 (msg 1 70) = Inr 0 \<and>
   route X0 cfg0 world0 = Inr [(0, [(7, msg 1 70)])]"
proof -
  have h1: "policy cfg_no_local = Default_policy" by (simp add: cfg_no_local_def)
  have h2: "policy cfg0 = Default_policy" by (simp add: cfg0_def)
  show ?thesis
    using h1 h2 default_policy_needs_local_mbox [OF h1, of "msg 1 70" X0 world0]
      default_policy_needs_local_mbox [OF h2, of "msg 1 70" X0 world0]
    by (simp add: eval_route cfg_no_local_def cfg0_def world0_def)
qed

section \<open>The events of one pass\<close>

lemma map_filter_append [simp]:
  "List.map_filter f (xs @ ys) = List.map_filter f xs @ List.map_filter f ys"
  by (simp add: List.map_filter_def)

lemma gather_calls:
  "gather (map (\<lambda>x. call (ev x) (f x)) xs) w = (r, w', t) \<Longrightarrow> t = map ev xs"
proof (induction xs arbitrary: w r w' t)
  case Nil
  then show ?case by simp
next
  case (Cons x xs)
  obtain r1 w1 where f: "f x w = (r1, w1)" by (cases "f x w")
  obtain rs w2 t2 where g: "gather (map (\<lambda>x. call (ev x) (f x)) xs) w1 = (rs, w2, t2)"
    by (cases "gather (map (\<lambda>x. call (ev x) (f x)) xs) w1")
  have t2: "t2 = map ev xs" by (rule Cons.IH [OF g])
  have c: "call (ev x) (f x) w = (r1, w1, [ev x])" by (simp add: call_def f)
  show ?case using Cons.prems c g t2 by simp
qed

lemma refresh_events:
  "refresh X cfg w = (r, w', t) \<Longrightarrow>
   t = map Ev_update_message_list (filter (\<lambda>mbox. need_update X mbox w) (all_mboxes cfg))"
  unfolding refresh_def by (rule gather_calls)

lemma force_all_events:
  "force_all X msgs w = (r, w', t) \<Longrightarrow>
   List.map_filter forced t = List.map_filter differs t \<and>
   (\<exists>n. List.map_filter compared t = take n (map fst msgs)) \<and>
   (\<forall>ev \<in> set t. code_phase ev = 3)"
proof (induction msgs arbitrary: w r w' t)
  case Nil
  then show ?case by (simp add: List.map_filter_simps)
next
  case (Cons p msgs)
  obtain mbox d where p: "p = (mbox, d)" by (cases p)
  show ?case
  proof (cases "same_messages X mbox d w")
    case True
    obtain r1 w1 t1 where rest: "force_all X msgs w = (r1, w1, t1)"
      by (cases "force_all X msgs w")
    from Cons.IH [OF rest] obtain n where
      ih: "List.map_filter forced t1 = List.map_filter differs t1"
          "List.map_filter compared t1 = take n (map fst msgs)" "\<forall>ev \<in> set t1. code_phase ev = 3"
      by blast
    have t: "t = Ev_same_messages mbox d True # t1"
      using Cons.prems p True rest by simp
    have "List.map_filter compared t = take (Suc n) (map fst (p # msgs))"
      using t ih(2) p by (simp add: List.map_filter_simps)
    then have c: "\<exists>n. List.map_filter compared t = take n (map fst (p # msgs))" ..
    have a: "List.map_filter forced t = List.map_filter differs t"
      using t ih(1) by (simp add: List.map_filter_simps)
    have b: "\<forall>ev \<in> set t. code_phase ev = 3"
      using t ih(3) by simp
    show ?thesis using a b c by blast
  next
    case False
    obtain r0 w0 where fc: "force_content X mbox d w = (r0, w0)"
      by (cases "force_content X mbox d w")
    show ?thesis
    proof (cases r0)
      case (Some e)
      then have t: "t = [Ev_same_messages mbox d False, Ev_force_content mbox d]"
        using Cons.prems p False fc by simp
      have "List.map_filter compared t = take (Suc 0) (map fst (p # msgs))"
        using t p by (simp add: List.map_filter_simps)
      then have c: "\<exists>n. List.map_filter compared t = take n (map fst (p # msgs))" ..
      have a: "List.map_filter forced t = List.map_filter differs t"
        using t by (simp add: List.map_filter_simps)
      have b: "\<forall>ev \<in> set t. code_phase ev = 3"
        using t by simp
      show ?thesis using a b c by blast
    next
      case None
      obtain r1 w1 t1 where rest: "force_all X msgs w0 = (r1, w1, t1)"
        by (cases "force_all X msgs w0")
      from Cons.IH [OF rest] obtain n where
        ih: "List.map_filter forced t1 = List.map_filter differs t1"
            "List.map_filter compared t1 = take n (map fst msgs)" "\<forall>ev \<in> set t1. code_phase ev = 3"
        by blast
      have t: "t = Ev_same_messages mbox d False # Ev_force_content mbox d # t1"
        using Cons.prems p False fc None rest by simp
      have "List.map_filter compared t = take (Suc n) (map fst (p # msgs))"
        using t ih(2) p by (simp add: List.map_filter_simps)
      then have c: "\<exists>n. List.map_filter compared t = take n (map fst (p # msgs))" ..
      have a: "List.map_filter forced t = List.map_filter differs t"
        using t ih(1) by (simp add: List.map_filter_simps)
      have b: "\<forall>ev \<in> set t. code_phase ev = 3"
        using t ih(3) by simp
      show ?thesis using a b c by blast
    qed
  qed
qed

lemma distinct_keys_fold_update:
  "distinct (map fst al) \<Longrightarrow> distinct (map fst (fold (\<lambda>k al. AList.update k v al) ks al))"
  by (induction ks arbitrary: al) (simp_all add: AList.distinct_update)

lemma distinct_empty_targets: "distinct (map fst (empty_targets ls))"
  by (simp add: empty_targets_def distinct_keys_fold_update)

lemma distinct_empty_merges: "distinct (map fst (empty_merges cs))"
  by (simp add: empty_merges_def distinct_keys_fold_update)

lemma group_items_keys:
  "group_items lm items mbc = Inr mbc' \<Longrightarrow> map fst mbc' = map fst mbc"
proof (induction items arbitrary: mbc)
  case Nil
  then show ?case by simp
next
  case (Cons x items)
  obtain ch m where x: "x = (ch, m)" by (cases x)
  from Cons.prems x obtain d where
    s: "map_of mbc (mailbox m) = Some d"
       "group_items lm items (AList.update (mailbox m) (AList.update ch (map_of lm ch, m) d) mbc)
          = Inr mbc'"
    by (auto split: option.splits)
  have "map fst mbc' = map fst (AList.update (mailbox m) (AList.update ch (map_of lm ch, m) d) mbc)"
    by (rule Cons.IH [OF s(2)])
  then show ?case using s(1) by (simp add: keys_update_existing)
qed

lemma group_mboxes_keys:
  "group_mboxes X w msgs mbc = Inr mbc' \<Longrightarrow> map fst mbc' = map fst mbc"
proof (induction msgs arbitrary: mbc)
  case Nil
  then show ?case by simp
next
  case (Cons p msgs)
  obtain l d where p: "p = (l, d)" by (cases p)
  from Cons.prems p obtain mbc1 where
    s: "group_items (messages X l w) d mbc = Inr mbc1" "group_mboxes X w msgs mbc1 = Inr mbc'"
    by (auto split: sum.splits)
  show ?case using Cons.IH [OF s(2)] group_items_keys [OF s(1)] by simp
qed

lemma route_keys:
  "route X cfg w = Inr msgs \<Longrightarrow> distinct (map fst msgs)"
  using route_items_keys [of cfg _ "empty_targets (local_mboxes cfg)" msgs]
  by (simp add: route_def route_mboxes_concat distinct_empty_targets)

text \<open>Events of other steps say nothing of forcing, or of merging.\<close>

lemma not_force_phase:
  "\<forall>ev \<in> set t. code_phase ev \<noteq> 3 \<Longrightarrow>
   List.map_filter forced t = [] \<and> List.map_filter differs t = [] \<and>
   List.map_filter compared t = []"
proof (induction t)
  case Nil
  then show ?case by (simp add: List.map_filter_simps)
next
  case (Cons ev t)
  then show ?case by (cases ev) (simp_all add: List.map_filter_simps)
qed

lemma not_merge_phase:
  "\<forall>ev \<in> set t. code_phase ev \<noteq> 2 \<Longrightarrow>
   List.map_filter merged t = [] \<and> List.map_filter differs_tuple t = [] \<and>
   List.map_filter compared_tuple t = []"
proof (induction t)
  case Nil
  then show ?case by (simp add: List.map_filter_simps)
next
  case (Cons ev t)
  then show ?case by (cases ev) (simp_all add: List.map_filter_simps)
qed

lemma tuple_comparisons:
  "List.map_filter differs_tuple
     (map (\<lambda>(mbox, d). Ev_same_messages_tuple mbox d (P mbox d)) mbc) =
     filter (\<lambda>(mbox, d). \<not> P mbox d) mbc \<and>
   List.map_filter merged (map (\<lambda>(mbox, d). Ev_same_messages_tuple mbox d (P mbox d)) mbc) = [] \<and>
   List.map_filter compared_tuple
     (map (\<lambda>(mbox, d). Ev_same_messages_tuple mbox d (P mbox d)) mbc) = map fst mbc"
  by (induction mbc) (auto simp: List.map_filter_simps)

lemma merge_calls:
  "List.map_filter merged (map (\<lambda>(mbox, d). Ev_merge_content mbox d) xs) = xs \<and>
   List.map_filter differs_tuple (map (\<lambda>(mbox, d). Ev_merge_content mbox d) xs) = [] \<and>
   List.map_filter compared_tuple (map (\<lambda>(mbox, d). Ev_merge_content mbox d) xs) = []"
  by (induction xs) (auto simp: List.map_filter_simps)

lemma update_cloud_from_local_events:
  assumes "update_cloud_from_local X cfg msgs w = (r, w', t)"
  shows "List.map_filter merged t = List.map_filter differs_tuple t \<and>
     distinct (List.map_filter compared_tuple t) \<and> (\<forall>ev \<in> set t. code_phase ev = 2)"
proof (cases "group_mboxes X w msgs (empty_merges (cloud_mboxes cfg))")
  case (Inl e)
  then have "t = []" using assms by (simp add: update_cloud_from_local_def)
  then show ?thesis by (simp add: List.map_filter_simps)
next
  case (Inr mbc)
  let ?P = "\<lambda>mbox d. same_messages_tuple X mbox d w"
  let ?diff = "filter (\<lambda>(mbox, d). \<not> ?P mbox d) mbc"
  let ?calls = "map (\<lambda>(mbox, d). call (Ev_merge_content mbox d) (merge_content X mbox d)) ?diff"
  obtain r1 w1 t1 where g: "gather ?calls w = (r1, w1, t1)" by (cases "gather ?calls w")
  have calls: "?calls = map (\<lambda>x. call ((\<lambda>(mbox, d). Ev_merge_content mbox d) x)
                                   ((\<lambda>(mbox, d). merge_content X mbox d) x)) ?diff"
    by (simp add: split_beta)
  have t1: "t1 = map (\<lambda>(mbox, d). Ev_merge_content mbox d) ?diff"
    using g unfolding calls by (rule gather_calls)
  have t: "t = map (\<lambda>(mbox, d). Ev_same_messages_tuple mbox d (?P mbox d)) mbc @ t1"
    using assms Inr g by (simp add: update_cloud_from_local_def)
  have d: "distinct (map fst mbc)"
    using group_mboxes_keys [OF Inr] distinct_empty_merges by simp
  have "\<forall>ev \<in> set t. code_phase ev = 2"
    unfolding t t1 by auto
  then show ?thesis
    using d tuple_comparisons [of ?P mbc] merge_calls [of ?diff]
    unfolding t t1 by simp
qed

lemma force_local_to_cloud_events:
  assumes "force_local_to_cloud X cfg w = (r, w', t)"
  shows "List.map_filter forced t = List.map_filter differs t \<and>
     distinct (List.map_filter compared t) \<and> (\<forall>ev \<in> set t. code_phase ev = 3)"
proof (cases "route X cfg w")
  case (Inl e)
  then have "t = []" using assms by (simp add: force_local_to_cloud_def)
  then show ?thesis by (simp add: List.map_filter_simps)
next
  case (Inr msgs)
  obtain r1 w1 t1 where f: "force_all X msgs w = (r1, w1, t1)" by (cases "force_all X msgs w")
  have t: "t = t1" using assms Inr f by (cases r1) (simp_all add: force_local_to_cloud_def)
  from force_all_events [OF f] obtain n where
    e: "List.map_filter forced t1 = List.map_filter differs t1"
       "List.map_filter compared t1 = take n (map fst msgs)" "\<forall>ev \<in> set t1. code_phase ev = 3"
    by blast
  have "distinct (take n (map fst msgs))"
    using route_keys [OF Inr] by (rule distinct_take)
  then show ?thesis using e t by simp
qed

lemma sorted_precede:
  assumes "\<And>ev. P ev \<Longrightarrow> f ev = a" "\<And>ev. Q ev \<Longrightarrow> f ev = b" "(a::nat) < b"
  shows "sorted (map f t) \<Longrightarrow> precede P Q t"
proof (induction t)
  case Nil
  then show ?case by simp
next
  case (Cons ev t)
  have "\<not> list_ex P t" if "Q ev"
  proof
    assume "list_ex P t"
    then obtain ev' where "ev' \<in> set t" "P ev'" by (auto simp: list_ex_iff)
    then have "f ev \<le> f ev'" "f ev' = a" using Cons.prems assms(1) by auto
    then show False using assms(2) [OF that] assms(3) by simp
  qed
  then show ?case using Cons by simp
qed

lemma cycle_events:
  assumes "cycle X cfg msgs w = (r, w', t)"
  shows "\<exists>t1 t2 t3. t = t1 @ t2 @ t3 \<and>
     (\<forall>ev \<in> set t1. code_phase ev = 1) \<and> (\<forall>ev \<in> set t2. code_phase ev = 2) \<and>
     (\<forall>ev \<in> set t3. code_phase ev = 3) \<and> (msgs = None \<longrightarrow> t2 = []) \<and>
     List.map_filter merged t2 = List.map_filter differs_tuple t2 \<and>
     distinct (List.map_filter compared_tuple t2) \<and>
     List.map_filter forced t3 = List.map_filter differs t3 \<and>
     distinct (List.map_filter compared t3)"
proof -
  obtain r1 w1 t1 where rf: "refresh X cfg w = (r1, w1, t1)" by (cases "refresh X cfg w")
  have p1: "\<forall>ev \<in> set t1. code_phase ev = 1"
    using refresh_events [OF rf] by auto
  define up where "up = (case msgs of None \<Rightarrow> (None, w1, [])
                                      | Some m \<Rightarrow> update_cloud_from_local X cfg m w1)"
  obtain r2 w2 t2 where u: "up = (r2, w2, t2)" by (cases up)
  have p2: "(\<forall>ev \<in> set t2. code_phase ev = 2) \<and> (msgs = None \<longrightarrow> t2 = []) \<and>
     List.map_filter merged t2 = List.map_filter differs_tuple t2 \<and>
     distinct (List.map_filter compared_tuple t2)"
  proof (cases msgs)
    case None
    then have "t2 = []" using u by (simp add: up_def)
    then show ?thesis by (simp add: List.map_filter_simps)
  next
    case (Some m)
    then have "update_cloud_from_local X cfg m w1 = (r2, w2, t2)" using u by (simp add: up_def)
    from update_cloud_from_local_events [OF this] show ?thesis using Some by simp
  qed
  obtain r3 w3 t3 where f: "force_local_to_cloud X cfg w2 = (r3, w3, t3)"
    by (cases "force_local_to_cloud X cfg w2")
  note p3 = force_local_to_cloud_events [OF f]
  have empty: "\<And>P. \<forall>ev \<in> set ([]::event list). P ev" by simp
  have nil: "List.map_filter forced [] = List.map_filter differs []"
    "List.map_filter merged [] = List.map_filter differs_tuple []"
    "distinct (List.map_filter compared [])" "distinct (List.map_filter compared_tuple [])"
    by (simp_all add: List.map_filter_simps)
  show ?thesis
  proof (cases r1)
    case (Some e)
    then have "t = t1 @ [] @ []" using assms rf by (simp add: cycle_def)
    then show ?thesis using p1 nil by (intro exI [of _ t1] exI [of _ "[]"]) simp
  next
    case None
    show ?thesis
    proof (cases r2)
      case (Some e)
      then have "t = t1 @ t2 @ []"
        using assms rf None u by (simp add: cycle_def up_def)
      then show ?thesis
        using p1 p2 nil by (intro exI [of _ t1] exI [of _ t2] exI [of _ "[]"]) simp
    next
      case None2: None
      have "t = t1 @ t2 @ t3"
        using assms rf None u None2 f by (simp add: cycle_def up_def)
      then show ?thesis
        using p1 p2 p3 by (intro exI [of _ t1] exI [of _ t2] exI [of _ t3]) simp
    qed
  qed
qed

lemma loop_body_events:
  assumes "loop_body X cfg msgs w = (r, w', t)"
  shows "\<exists>rc wc tc t4. cycle X cfg msgs w = (rc, wc, tc) \<and> t = tc @ t4 \<and>
     (\<forall>ev \<in> set t4. code_phase ev = 4) \<and>
     (Ev_wait \<in> set t4 \<longrightarrow> (\<exists>msgs'. rc = Inr msgs' \<and> t4 = [Ev_wait, Ev_clear, Ev_cleanup_msgs msgs']))"
proof -
  obtain rc wc tc where c: "cycle X cfg msgs w = (rc, wc, tc)" by (cases "cycle X cfg msgs w")
  show ?thesis
  proof (cases rc)
    case (Inl e)
    then have "t = tc @ (if caught e then [Ev_logger_exception, Ev_sleep 10] else [])"
      using assms c by (auto simp: loop_body_def split: if_splits)
    then show ?thesis using c by auto
  next
    case (Inr msgs')
    obtain r5 w5 where cl: "cleanup_msgs X msgs' (changed_event_clear X (changed_event_wait X wc)) = (r5, w5)"
      by (cases "cleanup_msgs X msgs' (changed_event_clear X (changed_event_wait X wc))")
    have "t = tc @ [Ev_wait, Ev_clear, Ev_cleanup_msgs msgs']"
      using assms c Inr cl by (cases r5) (simp_all add: loop_body_def)
    then show ?thesis using c Inr by auto
  qed
qed

lemma sorted_const: "\<forall>x \<in> set xs. f x = (c::nat) \<Longrightarrow> sorted (map f xs)"
  by (induction xs) auto

lemma in_map_filter:
  "x \<in> set xs \<Longrightarrow> f x = Some k \<Longrightarrow> k \<in> set (List.map_filter f xs)"
  by (force simp: List.map_filter_def)

lemma distinct_map_filter_eq:
  "distinct (List.map_filter f xs) \<Longrightarrow> x \<in> set xs \<Longrightarrow> y \<in> set xs \<Longrightarrow>
   f x = Some k \<Longrightarrow> f y = Some k \<Longrightarrow> x = y"
proof (induction xs)
  case Nil
  then show ?case by simp
next
  case (Cons a xs)
  show ?case
  proof (cases "f a")
    case None
    then have "x \<in> set xs" "y \<in> set xs" "distinct (List.map_filter f xs)"
      using Cons.prems by (auto simp: List.map_filter_simps)
    then show ?thesis using Cons.IH Cons.prems(4,5) by blast
  next
    case (Some v)
    then have d: "v \<notin> set (List.map_filter f xs)" "distinct (List.map_filter f xs)"
      using Cons.prems(1) by (simp_all add: List.map_filter_simps)
    have a: "z = a" if "z \<in> set (a # xs)" "f z = Some k" "v = k" for z
      using that d(1) in_map_filter [of z xs f k] by auto
    show ?thesis
    proof (cases "v = k")
      case True
      then show ?thesis using a Cons.prems by blast
    next
      case False
      then have "x \<in> set xs" "y \<in> set xs" using Cons.prems Some by auto
      then show ?thesis using Cons.IH d(2) Cons.prems(4,5) by blast
    qed
  qed
qed

lemma set_forced: "(mbox, d) \<in> set (List.map_filter forced t) \<longleftrightarrow> Ev_force_content mbox d \<in> set t"
proof (induction t)
  case Nil
  then show ?case by (simp add: List.map_filter_simps)
next
  case (Cons ev t)
  then show ?case by (cases ev) (auto simp: List.map_filter_simps)
qed

lemma set_differs:
  "(mbox, d) \<in> set (List.map_filter differs t) \<longleftrightarrow> Ev_same_messages mbox d False \<in> set t"
proof (induction t)
  case Nil
  then show ?case by (simp add: List.map_filter_simps)
next
  case (Cons ev t)
  then show ?case by (cases ev) (auto simp: List.map_filter_simps)
qed

lemma set_merged: "(mbox, d) \<in> set (List.map_filter merged t) \<longleftrightarrow> Ev_merge_content mbox d \<in> set t"
proof (induction t)
  case Nil
  then show ?case by (simp add: List.map_filter_simps)
next
  case (Cons ev t)
  then show ?case by (cases ev) (auto simp: List.map_filter_simps)
qed

lemma set_differs_tuple:
  "(mbox, d) \<in> set (List.map_filter differs_tuple t) \<longleftrightarrow>
   Ev_same_messages_tuple mbox d False \<in> set t"
proof (induction t)
  case Nil
  then show ?case by (simp add: List.map_filter_simps)
next
  case (Cons ev t)
  then show ?case by (cases ev) (auto simp: List.map_filter_simps)
qed

text \<open>The four steps of a pass, one after the other.\<close>

lemma loop_body_phases:
  assumes "loop_body X cfg msgs w = (r, w', t)"
  shows "\<exists>t1 t2 t3 t4. t = t1 @ t2 @ t3 @ t4 \<and>
     (\<forall>ev \<in> set t1. code_phase ev = 1) \<and> (\<forall>ev \<in> set t2. code_phase ev = 2) \<and>
     (\<forall>ev \<in> set t3. code_phase ev = 3) \<and> (\<forall>ev \<in> set t4. code_phase ev = 4) \<and>
     (msgs = None \<longrightarrow> t2 = []) \<and>
     List.map_filter merged t2 = List.map_filter differs_tuple t2 \<and>
     distinct (List.map_filter compared_tuple t2) \<and>
     List.map_filter forced t3 = List.map_filter differs t3 \<and>
     distinct (List.map_filter compared t3)"
proof -
  from loop_body_events [OF assms] obtain rc wc tc t4 where
    c: "cycle X cfg msgs w = (rc, wc, tc)" "t = tc @ t4" "\<forall>ev \<in> set t4. code_phase ev = 4"
    by blast
  from cycle_events [OF c(1)] obtain t1 t2 t3 where
    p: "tc = t1 @ t2 @ t3"
     "\<forall>ev \<in> set t1. code_phase ev = 1" "\<forall>ev \<in> set t2. code_phase ev = 2"
     "\<forall>ev \<in> set t3. code_phase ev = 3" "msgs = None \<longrightarrow> t2 = []"
     "List.map_filter merged t2 = List.map_filter differs_tuple t2"
     "distinct (List.map_filter compared_tuple t2)"
     "List.map_filter forced t3 = List.map_filter differs t3"
     "distinct (List.map_filter compared t3)"
    by blast
  have "t = t1 @ t2 @ t3 @ t4" using c(2) p(1) by simp
  then show ?thesis using p c(3) by blast
qed

lemma loop_body_projections:
  assumes "loop_body X cfg msgs w = (r, w', t)"
  shows "List.map_filter forced t = List.map_filter differs t \<and>
     List.map_filter merged t = List.map_filter differs_tuple t \<and>
     distinct (List.map_filter compared t) \<and> distinct (List.map_filter compared_tuple t)"
proof -
  from loop_body_phases [OF assms] obtain t1 t2 t3 t4 where
    p: "t = t1 @ t2 @ t3 @ t4"
     "\<forall>ev \<in> set t1. code_phase ev = 1" "\<forall>ev \<in> set t2. code_phase ev = 2"
     "\<forall>ev \<in> set t3. code_phase ev = 3" "\<forall>ev \<in> set t4. code_phase ev = 4"
     "List.map_filter merged t2 = List.map_filter differs_tuple t2"
     "distinct (List.map_filter compared_tuple t2)"
     "List.map_filter forced t3 = List.map_filter differs t3"
     "distinct (List.map_filter compared t3)"
    by blast
  have f1: "\<forall>ev \<in> set t1. code_phase ev \<noteq> 3" and f2: "\<forall>ev \<in> set t2. code_phase ev \<noteq> 3"
    and f4: "\<forall>ev \<in> set t4. code_phase ev \<noteq> 3"
    using p(2,3,5) by simp_all
  have m1: "\<forall>ev \<in> set t1. code_phase ev \<noteq> 2" and m3: "\<forall>ev \<in> set t3. code_phase ev \<noteq> 2"
    and m4: "\<forall>ev \<in> set t4. code_phase ev \<noteq> 2"
    using p(2,4,5) by simp_all
  show ?thesis
    unfolding p(1)
    using not_force_phase [OF f1] not_force_phase [OF f2] not_force_phase [OF f4]
      not_merge_phase [OF m1] not_merge_phase [OF m3] not_merge_phase [OF m4] p(6-9)
    by simp
qed

text \<open>
  C4: in the events of any pass of the loop, the calls of \<^verbatim>\<open>force_content\<close> are, one for
  one and with the same target, the comparisons \<^verbatim>\<open>same_messages\<close> that reported a
  difference, and the calls of \<^verbatim>\<open>merge_content\<close> are the comparisons in tuple form that
  reported a difference. A mailbox is compared at most once in a pass, so one whose
  comparison reported equality is not forced, or merged, in that pass.
\<close>

theorem force_and_merge_iff_different:
  assumes "loop_body X cfg msgs w = (r, w', t)"
  shows "List.map_filter forced t = List.map_filter differs t \<and>
     List.map_filter merged t = List.map_filter differs_tuple t \<and>
     (Ev_force_content mbox d \<in> set t \<longleftrightarrow> Ev_same_messages mbox d False \<in> set t) \<and>
     (Ev_merge_content mbox dt \<in> set t \<longleftrightarrow> Ev_same_messages_tuple mbox dt False \<in> set t) \<and>
     (Ev_same_messages mbox d True \<in> set t \<longrightarrow> (\<forall>d'. Ev_force_content mbox d' \<notin> set t)) \<and>
     (Ev_same_messages_tuple mbox dt True \<in> set t \<longrightarrow> (\<forall>d'. Ev_merge_content mbox d' \<notin> set t))"
proof -
  note p = loop_body_projections [OF assms]
  have 1: "Ev_force_content mbox d \<in> set t \<longleftrightarrow> Ev_same_messages mbox d False \<in> set t" for d
    using p set_forced [of mbox d t] set_differs [of mbox d t] by simp
  have 2: "Ev_merge_content mbox d \<in> set t \<longleftrightarrow> Ev_same_messages_tuple mbox d False \<in> set t" for d
    using p set_merged [of mbox d t] set_differs_tuple [of mbox d t] by simp
  have 3: "Ev_force_content mbox d' \<notin> set t" if "Ev_same_messages mbox d True \<in> set t" for d'
  proof
    assume "Ev_force_content mbox d' \<in> set t"
    then have "Ev_same_messages mbox d' False \<in> set t" using 1 by simp
    from distinct_map_filter_eq [OF _ that this, of compared mbox]
    show False using p by simp
  qed
  have 4: "Ev_merge_content mbox d' \<notin> set t" if "Ev_same_messages_tuple mbox dt True \<in> set t" for d'
  proof
    assume "Ev_merge_content mbox d' \<in> set t"
    then have "Ev_same_messages_tuple mbox d' False \<in> set t" using 2 by simp
    from distinct_map_filter_eq [OF _ that this, of compared_tuple mbox]
    show False using p by simp
  qed
  show ?thesis using p 1 2 3 4 by blast
qed

lemmas eval_loop = loop_body_def cycle_def refresh_def update_cloud_from_local_def
  force_local_to_cloud_def route_def empty_targets_def empty_merges_def all_mboxes_def
  call_def caught_def retried_def isinstance_def direct_message_def direct_message_default_def
  X0_def cfg0_def world0_def world1_def msgs_pass1_def msg_def

lemma pass1_eval:
  "loop_body X0 cfg0 None world0 =
     (Inr (Some msgs_pass1), world1,
      [Ev_update_message_list 0, Ev_update_message_list 1,
       Ev_same_messages 0 [(7, msg 1 70)] False, Ev_force_content 0 [(7, msg 1 70)],
       Ev_wait, Ev_clear, Ev_cleanup_msgs msgs_pass1])"
  by (simp add: eval_loop)

lemma pass2_eval:
  "loop_body X0 cfg0 (Some msgs_pass1) world1 =
     (Inr (Some [(0, [(7, msg 1 70), (8, msg 1 80)])]),
      [(0, [(7, msg 1 70), (8, msg 1 80)]), (1, [(7, msg 1 70), (8, msg 1 80)])], pass2)"
  by (simp add: eval_loop pass2_def)

theorem force_and_merge_iff_different_witness:
  "loop_body X0 cfg0 (Some msgs_pass1) world1 =
     (Inr (Some [(0, [(7, msg 1 70), (8, msg 1 80)])]),
      [(0, [(7, msg 1 70), (8, msg 1 80)]), (1, [(7, msg 1 70), (8, msg 1 80)])], pass2) \<and>
   List.map_filter forced pass2 = [(0, [(7, msg 1 70), (8, msg 1 80)])] \<and>
   List.map_filter differs pass2 = [(0, [(7, msg 1 70), (8, msg 1 80)])] \<and>
   List.map_filter merged pass2 = List.map_filter differs_tuple pass2"
  using pass2_eval force_and_merge_iff_different [OF pass2_eval]
  by (simp add: pass2_def List.map_filter_simps)

lemma sorted_phase_append:
  "\<forall>x \<in> set xs. f x = (a::nat) \<Longrightarrow> sorted (map f ys) \<Longrightarrow> \<forall>y \<in> set ys. a \<le> f y \<Longrightarrow>
   sorted (map f (xs @ ys))"
  by (induction xs) auto

text \<open>
  C1, as the code has it: in every pass of the loop the refresh is complete before the
  upward merge (\<^verbatim>\<open>update_cloud_from_local\<close>, which the first pass skips) begins, the merge
  is complete before the routing and forcing (\<^verbatim>\<open>force_local_to_cloud\<close>) begins, and the
  wait on the changed event begins only after these have succeeded; in particular every
  \<^verbatim>\<open>merge_content\<close> call of a pass precedes every \<^verbatim>\<open>force_content\<close> call of that pass.
\<close>

theorem pass_order:
  assumes "loop_body X cfg msgs w = (r, w', t)"
  shows "sorted (map code_phase t) \<and> precede is_merge is_force t \<and>
     (msgs = None \<longrightarrow> \<not> list_ex is_merge t) \<and>
     (Ev_wait \<in> set t \<longrightarrow>
        (\<exists>msgs' wc tc. cycle X cfg msgs w = (Inr msgs', wc, tc) \<and>
           t = tc @ [Ev_wait, Ev_clear, Ev_cleanup_msgs msgs']))"
proof -
  from loop_body_phases [OF assms] obtain t1 t2 t3 t4 where
    p: "t = t1 @ t2 @ t3 @ t4"
     "\<forall>ev \<in> set t1. code_phase ev = 1" "\<forall>ev \<in> set t2. code_phase ev = 2"
     "\<forall>ev \<in> set t3. code_phase ev = 3" "\<forall>ev \<in> set t4. code_phase ev = 4"
     "msgs = None \<longrightarrow> t2 = []"
    by blast
  have s4: "sorted (map code_phase t4)"
    by (rule sorted_const [OF p(5)])
  have s3: "sorted (map code_phase (t3 @ t4))"
    using p(5) by (intro sorted_phase_append [OF p(4) s4]) simp
  have s2: "sorted (map code_phase (t2 @ t3 @ t4))"
    using p(4,5) by (intro sorted_phase_append [OF p(3) s3]) auto
  have s: "sorted (map code_phase t)"
    unfolding p(1) using p(3,4,5) by (intro sorted_phase_append [OF p(2) s2]) auto
  have mp: "code_phase ev = 2" if "is_merge ev" for ev
    using that by (cases ev) (simp_all add: is_merge_def)
  have fp: "code_phase ev = 3" if "is_force ev" for ev
    using that by (cases ev) (simp_all add: is_force_def)
  have pr: "precede is_merge is_force t"
    by (rule sorted_precede [OF mp fp _ s]) simp_all
  have nm: "\<not> list_ex is_merge t" if "msgs = None"
  proof
    assume "list_ex is_merge t"
    then obtain ev where ev: "ev \<in> set t" "is_merge ev" by (auto simp: list_ex_iff)
    then have "code_phase ev = 2" using mp by simp
    moreover have "ev \<in> set t1 \<union> set t3 \<union> set t4" using ev(1) p(1,6) that by simp
    ultimately show False using p(2,4,5) by auto
  qed
  from loop_body_events [OF assms] obtain rc wc tc t4' where
    c: "cycle X cfg msgs w = (rc, wc, tc)" "t = tc @ t4'"
       "Ev_wait \<in> set t4' \<longrightarrow> (\<exists>msgs'. rc = Inr msgs' \<and> t4' = [Ev_wait, Ev_clear, Ev_cleanup_msgs msgs'])"
    by blast
  from cycle_events [OF c(1)] have "\<forall>ev \<in> set tc. code_phase ev \<noteq> 4"
    by auto
  then have "Ev_wait \<notin> set tc" by auto
  then have "Ev_wait \<in> set t \<longrightarrow> Ev_wait \<in> set t4'" using c(2) by simp
  then have w: "Ev_wait \<in> set t \<longrightarrow>
        (\<exists>msgs' wc tc. cycle X cfg msgs w = (Inr msgs', wc, tc) \<and>
           t = tc @ [Ev_wait, Ev_clear, Ev_cleanup_msgs msgs'])"
    using c by auto
  show ?thesis using s pr nm w by blast
qed

theorem pass_order_witness:
  "loop_body X0 cfg0 (Some msgs_pass1) world1 =
     (Inr (Some [(0, [(7, msg 1 70), (8, msg 1 80)])]),
      [(0, [(7, msg 1 70), (8, msg 1 80)]), (1, [(7, msg 1 70), (8, msg 1 80)])], pass2) \<and>
   sorted (map code_phase pass2) \<and> precede is_merge is_force pass2 \<and> Ev_wait \<in> set pass2"
  using pass2_eval pass_order [OF pass2_eval]
  by (simp add: pass2_def)

text \<open>
  The order of the specification fails in the second pass of the loop in the world \<open>X0\<close>:
  the pass merges the routing result of the first pass into cloud mailbox 1 and then
  forces local mailbox 0, a \<^verbatim>\<open>force_content\<close> call after a \<^verbatim>\<open>merge_content\<close> call.
\<close>

theorem pass_order_counterexample:
  "fst (loop_body X0 cfg0 None world0) = Inr (Some msgs_pass1) \<and>
   fst (snd (loop_body X0 cfg0 None world0)) = world1 \<and>
   snd (snd (loop_body X0 cfg0 (Some msgs_pass1) world1)) = pass2 \<and>
   \<not> sorted (map spec_phase pass2) \<and> \<not> precede is_force is_merge pass2"
proof -
  have "\<not> sorted (map spec_phase pass2)"
    by (simp add: pass2_def)
  moreover have "\<not> precede is_force is_merge pass2"
    by (simp add: pass2_def is_force_def is_merge_def)
  ultimately show ?thesis
    by (simp add: pass1_eval pass2_eval)
qed

section \<open>Retrying and leaving the loop\<close>

lemma caught_iff:
  "caught e \<longleftrightarrow>
     isinstance e FileNotFoundError \<or> isinstance e asyncio_TimeoutError \<or>
     isinstance e ClientError \<or> isinstance e IOError \<or> isinstance e RuntimeError"
  by (simp add: caught_def retried_def)

lemma cycle_starts_with_refresh:
  "\<exists>rest. snd (snd (cycle X cfg msgs w)) = snd (snd (refresh X cfg w)) @ rest"
  by (auto simp: cycle_def split: prod.splits option.splits)

lemma loop_body_starts_with_refresh:
  "\<exists>rest. snd (snd (loop_body X cfg msgs w)) = snd (snd (refresh X cfg w)) @ rest"
proof -
  obtain rest where r: "snd (snd (cycle X cfg msgs w)) = snd (snd (refresh X cfg w)) @ rest"
    using cycle_starts_with_refresh [of X cfg msgs w] by blast
  obtain rc wc tc where c: "cycle X cfg msgs w = (rc, wc, tc)" by (cases "cycle X cfg msgs w")
  have "\<exists>t4. snd (snd (loop_body X cfg msgs w)) = tc @ t4"
    using c by (auto simp: loop_body_def split: sum.splits prod.splits option.splits)
  then show ?thesis using r c by auto
qed

lemma main_loop_starts_with_refresh:
  "\<exists>rest. snd (snd (main_loop X cfg (Suc n) msgs w)) = snd (snd (refresh X cfg w)) @ rest"
proof -
  obtain rest where r: "snd (snd (loop_body X cfg msgs w)) = snd (snd (refresh X cfg w)) @ rest"
    using loop_body_starts_with_refresh [of X cfg msgs w] by blast
  obtain rb wb tb where b: "loop_body X cfg msgs w = (rb, wb, tb)"
    by (cases "loop_body X cfg msgs w")
  have "\<exists>t'. snd (snd (main_loop X cfg (Suc n) msgs w)) = tb @ t'"
    using b by (auto split: sum.splits prod.splits)
  then show ?thesis using r b by auto
qed

text \<open>
  C2, as the code has it: an exception raised by the refresh, the merge or the routing
  and forcing of a pass is caught if and only if it is an instance of
  \<^verbatim>\<open>FileNotFoundError\<close>, \<^verbatim>\<open>asyncio.TimeoutError\<close>, aiohttp's \<^verbatim>\<open>ClientError\<close>, \<^verbatim>\<open>IOError\<close>
  or \<^verbatim>\<open>RuntimeError\<close>. When it is, the failure is logged, the loop sleeps 10 and starts
  the next pass, with \<^verbatim>\<open>msgs\<close> as it was, at the refresh; when it is not, the exception
  leaves the loop.
\<close>

theorem retry_handler:
  assumes "cycle X cfg msgs w = (Inl e, w1, t1)"
  shows "(caught e \<longleftrightarrow>
        isinstance e FileNotFoundError \<or> isinstance e asyncio_TimeoutError \<or>
        isinstance e ClientError \<or> isinstance e IOError \<or> isinstance e RuntimeError) \<and>
     (caught e \<longrightarrow>
        loop_body X cfg msgs w =
          (Inr msgs, sleep X 10 w1, t1 @ [Ev_logger_exception, Ev_sleep 10]) \<and>
        main_loop X cfg (Suc n) msgs w =
          (case main_loop X cfg n msgs (sleep X 10 w1) of
             (r, w2, t2) \<Rightarrow> (r, w2, (t1 @ [Ev_logger_exception, Ev_sleep 10]) @ t2)) \<and>
        (\<exists>rest. snd (snd (main_loop X cfg (Suc (Suc n)) msgs w)) =
           t1 @ [Ev_logger_exception, Ev_sleep 10] @
           snd (snd (refresh X cfg (sleep X 10 w1))) @ rest)) \<and>
     (\<not> caught e \<longrightarrow>
        loop_body X cfg msgs w = (Inl e, w1, t1) \<and>
        main_loop X cfg (Suc n) msgs w = (Raised e, w1, t1))"
proof -
  have body: "loop_body X cfg msgs w =
      (if caught e then (Inr msgs, sleep X 10 w1, t1 @ [Ev_logger_exception, Ev_sleep 10])
       else (Inl e, w1, t1))"
    using assms by (simp add: loop_body_def)
  have loop: "main_loop X cfg (Suc k) msgs w =
      (if caught e
       then (case main_loop X cfg k msgs (sleep X 10 w1) of
               (r, w2, t2) \<Rightarrow> (r, w2, (t1 @ [Ev_logger_exception, Ev_sleep 10]) @ t2))
       else (Raised e, w1, t1))" for k
    using body by simp
  obtain rest where rest: "snd (snd (main_loop X cfg (Suc n) msgs (sleep X 10 w1))) =
      snd (snd (refresh X cfg (sleep X 10 w1))) @ rest"
    using main_loop_starts_with_refresh [of X cfg n msgs "sleep X 10 w1"] by blast
  have "snd (snd (main_loop X cfg (Suc (Suc n)) msgs w)) =
      t1 @ [Ev_logger_exception, Ev_sleep 10] @
      snd (snd (refresh X cfg (sleep X 10 w1))) @ rest" if "caught e"
    using that rest unfolding loop [of "Suc n"]
    by (simp add: split_beta)
  then show ?thesis
    using body loop [of n] caught_iff [of e] by auto
qed

lemmas eval_exn = X_raise_def

theorem retry_handler_witness:
  "cycle (X_raise RuntimeError) cfg0 None world0 =
     (Inl RuntimeError, world0, [Ev_update_message_list 0, Ev_update_message_list 1]) \<and>
   caught RuntimeError \<and>
   loop_body (X_raise RuntimeError) cfg0 None world0 =
     (Inr None, world0, [Ev_update_message_list 0, Ev_update_message_list 1,
                     Ev_logger_exception, Ev_sleep 10]) \<and>
   cycle (X_raise KeyError) cfg0 None world0 =
     (Inl KeyError, world0, [Ev_update_message_list 0, Ev_update_message_list 1]) \<and>
   \<not> caught KeyError \<and>
   main_loop (X_raise KeyError) cfg0 (Suc 2) None world0 =
     (Raised KeyError, world0, [Ev_update_message_list 0, Ev_update_message_list 1])"
proof -
  have h1: "cycle (X_raise RuntimeError) cfg0 None world0 =
     (Inl RuntimeError, world0, [Ev_update_message_list 0, Ev_update_message_list 1])"
    by (simp add: eval_loop eval_exn)
  have h2: "cycle (X_raise KeyError) cfg0 None world0 =
     (Inl KeyError, world0, [Ev_update_message_list 0, Ev_update_message_list 1])"
    by (simp add: eval_loop eval_exn)
  have c: "caught RuntimeError" "\<not> caught KeyError"
    by (simp_all add: caught_def retried_def isinstance_def)
  show ?thesis
    using h1 h2 c retry_handler [OF h1, of 2] retry_handler [OF h2, of 2]
    by (simp add: eval_exn X0_def)
qed

text \<open>
  \<^verbatim>\<open>RuntimeError\<close> is not one of the kinds that the specification enumerates, and it does
  not end the loop: it is logged and the pass is tried again.
\<close>

theorem retry_handler_counterexample:
  "\<not> spec_transient RuntimeError \<and>
   loop_body (X_raise RuntimeError) cfg0 None world0 =
     (Inr None, world0, [Ev_update_message_list 0, Ev_update_message_list 1,
                     Ev_logger_exception, Ev_sleep 10]) \<and>
   main_loop (X_raise RuntimeError) cfg0 (Suc (Suc 0)) None world0 =
     (Running, world0, [Ev_update_message_list 0, Ev_update_message_list 1,
                    Ev_logger_exception, Ev_sleep 10,
                    Ev_update_message_list 0, Ev_update_message_list 1,
                    Ev_logger_exception, Ev_sleep 10])"
  by (simp add: eval_loop eval_exn spec_transient_def)

section \<open>Leaving synchronize_mail\<close>








end
